theory Spec2Isabelle
  imports Complex_Main "HOL-Library.AList" "HOL-Library.Char_ord" "HOL-Library.List_Lexorder"
    "HOL-Library.Sublist"
begin

section \<open>Python values, exceptions and cache keys\<close>

text \<open>
  The fragment of Python's value universe that the cache can observe: the arguments of a
  call, the objects \<open>_make_key\<close> appends to them (the private \<open>kwd_mark\<close> object and
  type objects), and results.  A finite float is represented by its exact value, which is
  all that \<open>==\<close> between an \<open>int\<close> and a \<open>float\<close> looks at; NaN and the infinities are
  outside the model.  A list stands for the unhashable arguments.
\<close>

datatype pytype = TNoneType | TInt | TFloat | TStr | TFrozenset | TTuple | TList | TType | TObject

datatype pyval =
    PNone
  | PInt int
  | PFloat rat
  | PStr string
  | PTuple "pyval list"
  | PList "pyval list"
  | PType pytype
  | PMark

datatype exn = TypeError | KeyError | Raised string

fun type_of :: "pyval \<Rightarrow> pytype" where
  "type_of PNone = TNoneType"
| "type_of (PInt i) = TInt"
| "type_of (PFloat r) = TFloat"
| "type_of (PStr s) = TStr"
| "type_of (PTuple vs) = TTuple"
| "type_of (PList vs) = TList"
| "type_of (PType t) = TType"
| "type_of PMark = TObject"

text \<open>\<open>hash(v)\<close> succeeds: a list is unhashable, a tuple hashes its elements.\<close>

fun hashable :: "pyval \<Rightarrow> bool" where
  "hashable (PList vs) = False"
| "hashable (PTuple vs) = list_all hashable vs"
| "hashable v = True"

text \<open>Python's \<open>==\<close> on these values: numbers compare by value across \<open>int\<close> and
  \<open>float\<close>, sequences element by element within one type, \<open>kwd_mark\<close> and type objects
  by identity.\<close>

fun py_eq :: "pyval \<Rightarrow> pyval \<Rightarrow> bool" where
  "py_eq PNone w = (case w of PNone \<Rightarrow> True | _ \<Rightarrow> False)"
| "py_eq (PInt i) w = (case w of PInt j \<Rightarrow> i = j | PFloat r \<Rightarrow> of_int i = r | _ \<Rightarrow> False)"
| "py_eq (PFloat r) w = (case w of PInt j \<Rightarrow> r = of_int j | PFloat q \<Rightarrow> r = q | _ \<Rightarrow> False)"
| "py_eq (PStr s) w = (case w of PStr t \<Rightarrow> s = t | _ \<Rightarrow> False)"
| "py_eq (PTuple vs) w = (case w of PTuple ws \<Rightarrow> list_all2 py_eq vs ws | _ \<Rightarrow> False)"
| "py_eq (PList vs) w = (case w of PList ws \<Rightarrow> list_all2 py_eq vs ws | _ \<Rightarrow> False)"
| "py_eq (PType s) w = (case w of PType t \<Rightarrow> s = t | _ \<Rightarrow> False)"
| "py_eq PMark w = (case w of PMark \<Rightarrow> True | _ \<Rightarrow> False)"

text \<open>A dictionary identifies keys that are \<open>==\<close> (and hash alike).  \<open>canon\<close> picks one
  representative of each class, so that a dictionary can be indexed by representatives:
  a float with an integral value is represented by that integer.\<close>

fun canon :: "pyval \<Rightarrow> pyval" where
  "canon (PFloat r) = (if of_int \<lfloor>r\<rfloor> = r then PInt \<lfloor>r\<rfloor> else PFloat r)"
| "canon (PTuple vs) = PTuple (map canon vs)"
| "canon (PList vs) = PList (map canon vs)"
| "canon v = v"

text \<open>The object \<open>_make_key\<close> returns: the single argument itself on the fast path,
  otherwise a \<open>_HashedSeq\<close> (a list subclass) of the flattened tuple.\<close>

datatype key = Fast pyval | HashedSeq "pyval list"

fun key_eq :: "key \<Rightarrow> key \<Rightarrow> bool" where
  "key_eq (Fast v) (Fast w) = py_eq v w"
| "key_eq (HashedSeq vs) (HashedSeq ws) = list_all2 py_eq vs ws"
| "key_eq k l = False"

fun dict_key :: "key \<Rightarrow> key" where
  "dict_key (Fast v) = Fast (canon v)"
| "dict_key (HashedSeq vs) = HashedSeq (map canon vs)"

definition fasttypes :: "pytype set" where
  "fasttypes = {TInt, TStr, TFrozenset, TNoneType}"

text \<open>\<open>_make_key(args, kwds, typed)\<close>.  \<open>kwds\<close> is the keyword dictionary as its item
  list (names are distinct, so \<open>sorted\<close> orders the items by name).  \<open>_HashedSeq(key)\<close>
  hashes the tuple once, which raises \<open>TypeError\<close> on an unhashable element.\<close>

definition make_key :: "pyval list \<Rightarrow> (string \<times> pyval) list \<Rightarrow> bool \<Rightarrow> exn + key" where
  "make_key args kwds typed =
    (let sorted_items = sort_key fst kwds;
         key1 = (if kwds \<noteq> []
                 then args @ [PMark] @ concat (map (\<lambda>(k, v). [PStr k, v]) sorted_items)
                 else args);
         key2 = (if typed
                 then key1 @ map (\<lambda>v. PType (type_of v)) args
                      @ (if kwds \<noteq> [] then map (\<lambda>(k, v). PType (type_of v)) sorted_items else [])
                 else key1)
     in if \<not> typed \<and> length key2 = 1 \<and> type_of (hd key2) \<in> fasttypes
        then Inr (Fast (hd key2))
        else if list_all hashable key2 then Inr (HashedSeq key2) else Inl TypeError)"

section \<open>Configuration and state of a decorated function\<close>

text \<open>The arguments of \<open>lru_cache\<close>.  \<open>maxsize = None\<close> is the unbounded cache;
  \<open>use_memory_up_to\<close> is tested for truth, so \<open>0\<close> stands for the default \<open>False\<close>.\<close>

record config =
  maxsize :: "int option"
  typed :: bool
  use_memory_up_to :: int

datatype variant = MemoryPressure | Disabled | Unbounded | FixedCapacity

text \<open>Which of its four \<open>wrapper\<close> closures \<open>decorating_function\<close> defines.\<close>

definition lru_cache :: "config \<Rightarrow> variant" where
  "lru_cache cfg =
    (if use_memory_up_to cfg \<noteq> 0 then MemoryPressure
     else if maxsize cfg = Some 0 then Disabled
     else if maxsize cfg = None then Unbounded
     else FixedCapacity)"

text \<open>A link is the four-element list \<open>[PREV, NEXT, KEY, RESULT]\<close>; links live in a
  store indexed by address, since the code updates them in place through aliases.\<close>

record link =
  lprev :: nat
  lnext :: nat
  lkey :: key
  lresult :: pyval

text \<open>The closure variables of \<open>decorating_function\<close>.  The dictionary \<open>cache\<close> is kept
  as its item list in insertion order, indexed by \<open>dict_key\<close>; its values are link
  addresses in the two recency-tracking wrappers and results in the unbounded one.
  \<open>fresh\<close> is the next unused address.\<close>

record 'v lru_state =
  cache :: "(key \<times> 'v) list"
  hits :: nat
  misses :: nat
  full :: bool
  root :: nat
  heap :: "nat \<Rightarrow> link"
  fresh :: nat

definition empty_link :: "nat \<Rightarrow> link" where
  "empty_link r = \<lparr>lprev = r, lnext = r, lkey = Fast PNone, lresult = PNone\<rparr>"

definition decorating_function :: "'v lru_state" where
  "decorating_function =
    \<lparr>cache = [], hits = 0, misses = 0, full = False, root = 0,
     heap = (\<lambda>a. empty_link 0), fresh = 1\<rparr>"

definition set_prev :: "(nat \<Rightarrow> link) \<Rightarrow> nat \<Rightarrow> nat \<Rightarrow> (nat \<Rightarrow> link)" where
  "set_prev h a v = h(a := (h a)\<lparr>lprev := v\<rparr>)"

definition set_next :: "(nat \<Rightarrow> link) \<Rightarrow> nat \<Rightarrow> nat \<Rightarrow> (nat \<Rightarrow> link)" where
  "set_next h a v = h(a := (h a)\<lparr>lnext := v\<rparr>)"

definition set_key :: "(nat \<Rightarrow> link) \<Rightarrow> nat \<Rightarrow> key \<Rightarrow> (nat \<Rightarrow> link)" where
  "set_key h a v = h(a := (h a)\<lparr>lkey := v\<rparr>)"

definition set_result :: "(nat \<Rightarrow> link) \<Rightarrow> nat \<Rightarrow> pyval \<Rightarrow> (nat \<Rightarrow> link)" where
  "set_result h a v = h(a := (h a)\<lparr>lresult := v\<rparr>)"

section \<open>The wrappers\<close>

text \<open>The first locked section of the two recency-tracking wrappers, on a hit: the link
  is unlinked and relinked just before \<open>root\<close>, assignment by assignment.\<close>

definition promote :: "nat \<Rightarrow> nat lru_state \<Rightarrow> pyval \<times> nat lru_state" where
  "promote link s =
    (let h0 = heap s;
         link_prev = lprev (h0 link);
         link_next = lnext (h0 link);
         result = lresult (h0 link);
         h1 = set_next h0 link_prev link_next;
         h2 = set_prev h1 link_next link_prev;
         last = lprev (h2 (root s));
         h3 = set_next h2 last link;
         h4 = set_prev h3 (root s) link;
         h5 = set_prev h4 link last;
         h6 = set_next h5 link (root s)
     in (result, s\<lparr>heap := h6, hits := hits s + 1\<rparr>))"

text \<open>The second locked section, entered with the computed result, has three branches.
  Its \<open>else\<close> branch starts by putting the result in a new link just before \<open>root\<close>:
  \<^verbatim>\<open>last = root[PREV]; link = [last, root, key, result]\<close>,
  \<^verbatim>\<open>last[NEXT] = root[PREV] = cache[key] = link\<close>.\<close>

definition link_new :: "key \<Rightarrow> pyval \<Rightarrow> nat lru_state \<Rightarrow> nat lru_state" where
  "link_new key result s =
    (let last = lprev (heap s (root s));
         link = fresh s;
         h1 = (heap s)(link := \<lparr>lprev = last, lnext = root s, lkey = key, lresult = result\<rparr>);
         h2 = set_next h1 last link;
         h3 = set_prev h2 (root s) link
     in s\<lparr>heap := h3, fresh := fresh s + 1,
          cache := AList.update (dict_key key) link (cache s)\<rparr>)"

text \<open>Its \<open>elif full\<close> branch starts by storing key and result in the old root and making
  the oldest link the new, emptied root; this gives \<open>oldkey\<close> and the state before the
  dictionary is updated.\<close>

definition reuse_root :: "key \<Rightarrow> pyval \<Rightarrow> nat lru_state \<Rightarrow> key \<times> nat lru_state" where
  "reuse_root key result s =
    (let oldroot = root s;
         h1 = set_key (heap s) oldroot key;
         h2 = set_result h1 oldroot result;
         root' = lnext (h2 oldroot);
         oldkey = lkey (h2 root');
         h3 = set_key h2 root' (Fast PNone);
         h4 = set_result h3 root' PNone
     in (oldkey, s\<lparr>heap := h4, root := root'\<rparr>))"

text \<open>\<open>is_full\<close> is the right-hand side of the assignment to \<open>full\<close>, given \<open>len(cache)\<close>;
  it is the only place where the two recency-tracking wrappers differ, and it can raise.
  When it raises, the new link is already stored while \<open>full\<close> and \<open>misses\<close> are not yet
  assigned.  \<open>del cache[oldkey]\<close> raises \<open>KeyError\<close> on an absent key.\<close>

definition store_result ::
  "(nat \<Rightarrow> exn + bool) \<Rightarrow> key \<Rightarrow> pyval \<Rightarrow> nat lru_state \<Rightarrow> (exn + pyval) \<times> nat lru_state" where
  "store_result is_full key result s =
    (if map_of (cache s) (dict_key key) \<noteq> None
     then (Inr result, s\<lparr>misses := misses s + 1\<rparr>)
     else if full s then
       (case reuse_root key result s of
          (oldkey, s1) \<Rightarrow>
            if map_of (cache s1) (dict_key oldkey) = None then (Inl KeyError, s1)
            else (Inr result,
                  s1\<lparr>cache := AList.update (dict_key key) (root s)
                                 (AList.delete (dict_key oldkey) (cache s1)),
                     misses := misses s1 + 1\<rparr>))
     else
       (let s1 = link_new key result s
        in case is_full (length (cache s1)) of
             Inl e \<Rightarrow> (Inl e, s1)
           | Inr b \<Rightarrow> (Inr result, s1\<lparr>full := b, misses := misses s1 + 1\<rparr>)))"

text \<open>A call of the wrapper is single-threaded here: the user function is a function of
  the arguments that returns or raises, and nothing touches the state between the two
  locked sections.\<close>

type_synonym user_function = "pyval list \<Rightarrow> (string \<times> pyval) list \<Rightarrow> exn + pyval"

definition linked_wrapper ::
  "(nat \<Rightarrow> exn + bool) \<Rightarrow> bool \<Rightarrow> user_function \<Rightarrow> pyval list \<Rightarrow> (string \<times> pyval) list
    \<Rightarrow> nat lru_state \<Rightarrow> (exn + pyval) \<times> nat lru_state" where
  "linked_wrapper is_full ty user_function args kwds s =
    (case make_key args kwds ty of
       Inl e \<Rightarrow> (Inl e, s)
     | Inr key \<Rightarrow>
        (case map_of (cache s) (dict_key key) of
           Some link \<Rightarrow> (let (result, s') = promote link s in (Inr result, s'))
         | None \<Rightarrow>
            (case user_function args kwds of
               Inl e \<Rightarrow> (Inl e, s)
             | Inr result \<Rightarrow> store_result is_full key result s)))"

text \<open>\<open>full = (psutil.virtual_memory().available < use_memory_up_to)\<close>: \<open>avail\<close> is what
  the probe answers if this call queries it, a number of bytes or an exception.\<close>

definition memory_full :: "config \<Rightarrow> exn + int \<Rightarrow> nat \<Rightarrow> exn + bool" where
  "memory_full cfg avail n =
    (case avail of Inl e \<Rightarrow> Inl e | Inr available \<Rightarrow> Inr (available < use_memory_up_to cfg))"

text \<open>\<open>full = (len(cache) >= maxsize)\<close>; comparing with \<open>None\<close> raises.\<close>

definition fixed_full :: "config \<Rightarrow> nat \<Rightarrow> exn + bool" where
  "fixed_full cfg n =
    (case maxsize cfg of None \<Rightarrow> Inl TypeError | Some m \<Rightarrow> Inr (m \<le> int n))"

definition wrapper_memory ::
  "config \<Rightarrow> user_function \<Rightarrow> pyval list \<Rightarrow> (string \<times> pyval) list \<Rightarrow> exn + int
    \<Rightarrow> nat lru_state \<Rightarrow> (exn + pyval) \<times> nat lru_state" where
  "wrapper_memory cfg user_function args kwds avail s =
    linked_wrapper (memory_full cfg avail) (typed cfg) user_function args kwds s"

definition wrapper_disabled ::
  "user_function \<Rightarrow> pyval list \<Rightarrow> (string \<times> pyval) list
    \<Rightarrow> 'v lru_state \<Rightarrow> (exn + pyval) \<times> 'v lru_state" where
  "wrapper_disabled user_function args kwds s =
    (case user_function args kwds of
       Inl e \<Rightarrow> (Inl e, s)
     | Inr result \<Rightarrow> (Inr result, s\<lparr>misses := misses s + 1\<rparr>))"

definition wrapper_unbounded ::
  "config \<Rightarrow> user_function \<Rightarrow> pyval list \<Rightarrow> (string \<times> pyval) list
    \<Rightarrow> pyval lru_state \<Rightarrow> (exn + pyval) \<times> pyval lru_state" where
  "wrapper_unbounded cfg user_function args kwds s =
    (case make_key args kwds (typed cfg) of
       Inl e \<Rightarrow> (Inl e, s)
     | Inr key \<Rightarrow>
        (case map_of (cache s) (dict_key key) of
           Some result \<Rightarrow> (Inr result, s\<lparr>hits := hits s + 1\<rparr>)
         | None \<Rightarrow>
            (case user_function args kwds of
               Inl e \<Rightarrow> (Inl e, s)
             | Inr result \<Rightarrow>
                (Inr result,
                 s\<lparr>cache := AList.update (dict_key key) result (cache s),
                   misses := misses s + 1\<rparr>))))"

definition wrapper_fixed ::
  "config \<Rightarrow> user_function \<Rightarrow> pyval list \<Rightarrow> (string \<times> pyval) list
    \<Rightarrow> nat lru_state \<Rightarrow> (exn + pyval) \<times> nat lru_state" where
  "wrapper_fixed cfg user_function args kwds s =
    linked_wrapper (fixed_full cfg) (typed cfg) user_function args kwds s"

text \<open>\<open>cache_info()\<close>: \<open>(hits, misses, maxsize, currsize)\<close>; \<open>maxsize\<close> was set to \<open>None\<close>
  when \<open>use_memory_up_to\<close> is given.\<close>

definition cache_info :: "config \<Rightarrow> 'v lru_state \<Rightarrow> nat \<times> nat \<times> int option \<times> nat" where
  "cache_info cfg s =
    (hits s, misses s, (if use_memory_up_to cfg \<noteq> 0 then None else maxsize cfg),
     length (cache s))"

definition cache_clear :: "'v lru_state \<Rightarrow> 'v lru_state" where
  "cache_clear s =
    s\<lparr>cache := [], heap := (heap s)(root s := empty_link (root s)),
      hits := 0, misses := 0, full := False\<rparr>"

section \<open>Sequences of operations\<close>

text \<open>What a single thread can do to a decorated function: call it, or call its
  \<open>cache_clear\<close> attribute (which returns \<open>None\<close>).  A call carries the answer the memory
  probe gives should this call query it.\<close>

datatype call = Call "pyval list" "(string \<times> pyval) list" "exn + int" | CacheClear

fun step_memory ::
  "config \<Rightarrow> user_function \<Rightarrow> call \<Rightarrow> nat lru_state \<Rightarrow> (exn + pyval) \<times> nat lru_state" where
  "step_memory cfg uf (Call args kwds avail) s = wrapper_memory cfg uf args kwds avail s"
| "step_memory cfg uf CacheClear s = (Inr PNone, cache_clear s)"

fun step_fixed ::
  "config \<Rightarrow> user_function \<Rightarrow> call \<Rightarrow> nat lru_state \<Rightarrow> (exn + pyval) \<times> nat lru_state" where
  "step_fixed cfg uf (Call args kwds avail) s = wrapper_fixed cfg uf args kwds s"
| "step_fixed cfg uf CacheClear s = (Inr PNone, cache_clear s)"

fun step_unbounded ::
  "config \<Rightarrow> user_function \<Rightarrow> call \<Rightarrow> pyval lru_state \<Rightarrow> (exn + pyval) \<times> pyval lru_state" where
  "step_unbounded cfg uf (Call args kwds avail) s = wrapper_unbounded cfg uf args kwds s"
| "step_unbounded cfg uf CacheClear s = (Inr PNone, cache_clear s)"

fun step_disabled ::
  "user_function \<Rightarrow> call \<Rightarrow> 'v lru_state \<Rightarrow> (exn + pyval) \<times> 'v lru_state" where
  "step_disabled uf (Call args kwds avail) s = wrapper_disabled uf args kwds s"
| "step_disabled uf CacheClear s = (Inr PNone, cache_clear s)"

text \<open>Running a sequence of operations; an exception ends the operation that raised it,
  not the sequence.\<close>

fun run :: "('c \<Rightarrow> 's \<Rightarrow> 'r \<times> 's) \<Rightarrow> 'c list \<Rightarrow> 's \<Rightarrow> 'r list \<times> 's" where
  "run step [] s = ([], s)"
| "run step (c # cs) s =
     (case step c s of (r, s1) \<Rightarrow> (case run step cs s1 of (rs, s2) \<Rightarrow> (r # rs, s2)))"

section \<open>Observing the circular list\<close>

definition next_of :: "(nat \<Rightarrow> link) \<Rightarrow> nat \<Rightarrow> nat" where
  "next_of h a = lnext (h a)"

definition prev_of :: "(nat \<Rightarrow> link) \<Rightarrow> nat \<Rightarrow> nat" where
  "prev_of h a = lprev (h a)"

definition entry_of :: "(nat \<Rightarrow> link) \<Rightarrow> nat \<Rightarrow> key \<times> pyval" where
  "entry_of h a = (lkey (h a), lresult (h a))"

text \<open>Walking the \<open>NEXT\<close> fields from \<open>a\<close> until \<open>r\<close> is met, giving up after \<open>n\<close> links.\<close>

fun walk :: "(nat \<Rightarrow> nat) \<Rightarrow> nat \<Rightarrow> nat \<Rightarrow> nat \<Rightarrow> nat list option" where
  "walk f r a 0 = (if a = r then Some [] else None)"
| "walk f r a (Suc n) =
     (if a = r then Some [] else map_option ((#) a) (walk f r (f a) n))"

text \<open>The links between \<open>root.next\<close> and \<open>root.prev\<close>, least recently used first, found in
  at most \<open>len(cache)\<close> steps; and the \<open>(key, result)\<close> pairs they hold.\<close>

definition ring_links :: "'v lru_state \<Rightarrow> nat list option" where
  "ring_links s = walk (next_of (heap s)) (root s) (next_of (heap s) (root s)) (length (cache s))"

definition lru_entries :: "'v lru_state \<Rightarrow> (key \<times> pyval) list option" where
  "lru_entries s = map_option (map (entry_of (heap s))) (ring_links s)"

text \<open>A path \<open>as\<close> from \<open>x\<close> to \<open>y\<close> along a pointer field.\<close>

primrec chain :: "(nat \<Rightarrow> nat) \<Rightarrow> nat \<Rightarrow> nat list \<Rightarrow> nat \<Rightarrow> bool" where
  "chain f x [] y \<longleftrightarrow> x = y"
| "chain f x (a # as) y \<longleftrightarrow> x = a \<and> chain f (f a) as y"

text \<open>The links \<open>as\<close> form, with \<open>r\<close>, a circular doubly linked list.\<close>

definition ring :: "(nat \<Rightarrow> link) \<Rightarrow> nat \<Rightarrow> nat list \<Rightarrow> bool" where
  "ring h r as \<longleftrightarrow>
     distinct (r # as) \<and> chain (next_of h) (next_of h r) as r
     \<and> chain (prev_of h) (prev_of h r) (rev as) r"

text \<open>The state is consistent, with the links \<open>as\<close> in the list: list and dictionary hold
  the same entries, each dictionary value is the link that holds its key, allocated
  links lie below \<open>fresh\<close>, and \<open>full\<close> is only set on a non-empty cache.\<close>

definition lru_abs :: "nat lru_state \<Rightarrow> nat list \<Rightarrow> bool" where
  "lru_abs s as \<longleftrightarrow>
     ring (heap s) (root s) as
     \<and> list_all (\<lambda>a. a < fresh s) (root s # as)
     \<and> distinct (map fst (cache s))
     \<and> set (cache s) = set (map (\<lambda>a. (dict_key (lkey (heap s a)), a)) as)
     \<and> (full s \<longrightarrow> cache s \<noteq> [])"

definition lru_inv :: "nat lru_state \<Rightarrow> bool" where
  "lru_inv s = (case ring_links s of None \<Rightarrow> False | Some as \<Rightarrow> lru_abs s as)"

section \<open>The recency order of the specification\<close>

text \<open>Following the specification's words, on the list of entries from least to most
  recently used: a call whose key is stored moves that entry to the most-recent end; any
  other call appends its entry there, after dropping the least recently used entry when
  the cache is full.  This is compared below with what the wrappers do to the links.\<close>

definition same_key :: "key \<Rightarrow> key \<times> pyval \<Rightarrow> bool" where
  "same_key k e \<longleftrightarrow> dict_key (fst e) = dict_key k"

definition spec_access :: "bool \<Rightarrow> key \<Rightarrow> pyval \<Rightarrow> (key \<times> pyval) list \<Rightarrow> (key \<times> pyval) list" where
  "spec_access is_full k v es =
    (if list_ex (same_key k) es
     then filter (\<lambda>e. \<not> same_key k e) es @ filter (same_key k) es
     else if is_full then tl es @ [(k, v)]
     else es @ [(k, v)])"

section \<open>Counting a call; example inputs\<close>

text \<open>A call is counted once: exactly one of \<open>hits\<close> and \<open>misses\<close> went up, by one.\<close>

definition counted_once :: "'v lru_state \<Rightarrow> 'v lru_state \<Rightarrow> bool" where
  "counted_once s s' \<longleftrightarrow>
     (hits s' = hits s + 1 \<and> misses s' = misses s) \<or> (hits s' = hits s \<and> misses s' = misses s + 1)"

text \<open>Two user functions and the default arguments of \<open>lru_cache\<close>, for concrete runs.\<close>

definition echo :: user_function where
  "echo args kwds = Inr (PTuple args)"

definition failing :: user_function where
  "failing args kwds = Inl (Raised ''boom'')"

definition default_config :: config where
  "default_config = \<lparr>maxsize = Some 128, typed = False, use_memory_up_to = 0\<rparr>"

definition memory_config :: config where
  "memory_config = \<lparr>maxsize = Some 128, typed = False, use_memory_up_to = 1000\<rparr>"

definition disabled_config :: config where
  "disabled_config = \<lparr>maxsize = Some 0, typed = False, use_memory_up_to = 0\<rparr>"


definition unbounded_config :: config where
  "unbounded_config = \<lparr>maxsize = None, typed = False, use_memory_up_to = 0\<rparr>"

text \<open>The invariant of the specification's data model, as an observation of a state: the
  walk from \<open>root.next\<close> comes back to \<open>root\<close>, the keys it meets are the keys of the
  dictionary, as many and without repetition, and \<open>root\<close> is linked to itself exactly
  when the dictionary is empty.\<close>

definition store_consistent :: "'v lru_state \<Rightarrow> bool" where
  "store_consistent s \<longleftrightarrow>
     (case lru_entries s of
        None \<Rightarrow> False
      | Some es \<Rightarrow>
          set (map (\<lambda>e. dict_key (fst e)) es) = set (map fst (cache s))
          \<and> length es = length (cache s)
          \<and> distinct (map (\<lambda>e. dict_key (fst e)) es))
     \<and> ((next_of (heap s) (root s) = root s \<and> prev_of (heap s) (root s) = root s)
          \<longleftrightarrow> cache s = [])"

section \<open>The history of a run\<close>

text \<open>A call returns when its key is built, the user function returns and the probe, if
  asked, answers.  The key a call accesses is the dictionary key of the key it builds;
  \<open>cache_clear\<close> and a call that builds no key access none.\<close>

fun returning :: "bool \<Rightarrow> user_function \<Rightarrow> call \<Rightarrow> bool" where
  "returning ty uf (Call args kwds avail) \<longleftrightarrow>
     \<not> isl (make_key args kwds ty) \<and> \<not> isl (uf args kwds) \<and> \<not> isl avail"
| "returning ty uf CacheClear \<longleftrightarrow> False"

fun accessed :: "bool \<Rightarrow> call \<Rightarrow> key option" where
  "accessed ty (Call args kwds avail) =
     (case make_key args kwds ty of Inr key \<Rightarrow> Some (dict_key key) | Inl e \<Rightarrow> None)"
| "accessed ty CacheClear = None"

text \<open>The dictionary keys held by the list, least recently used first.\<close>

definition lru_keys :: "'v lru_state \<Rightarrow> key list option" where
  "lru_keys s = map_option (map (\<lambda>e. dict_key (fst e))) (lru_entries s)"

text \<open>The scenario of the specification: capacity 2, calls \<open>f(1), f(2), f(1), f(3), f(2)\<close>.\<close>

definition capacity2_config :: config where
  "capacity2_config = \<lparr>maxsize = Some 2, typed = False, use_memory_up_to = 0\<rparr>"

definition scenario :: "call list" where
  "scenario = map (\<lambda>i. Call [PInt i] [] (Inr 0)) [1, 2, 1, 3, 2]"


section \<open>Dictionary keys and Python equality\<close>

text \<open>Two values are \<open>==\<close> exactly when they have the same representative, and two keys
  are equal exactly when they are stored under the same dictionary key.\<close>

lemma list_all2_map_eq:
  assumes "\<And>x y. x \<in> set xs \<Longrightarrow> P x y \<longleftrightarrow> f x = f y"
  shows "list_all2 P xs ys \<longleftrightarrow> map f xs = map f ys"
  using assms
proof (induction xs arbitrary: ys)
  case Nil
  then show ?case by simp
next
  case (Cons x xs)
  then show ?case by (cases ys) auto
qed

lemma canon_float_int: "canon (PFloat r) = PInt i \<longleftrightarrow> r = of_int i"
  by auto

lemma canon_float_not [simp]:
  "canon (PFloat r) \<noteq> PNone" "canon (PFloat r) \<noteq> PStr s" "canon (PFloat r) \<noteq> PTuple vs"
  "canon (PFloat r) \<noteq> PList vs" "canon (PFloat r) \<noteq> PType t" "canon (PFloat r) \<noteq> PMark"
  by simp_all

lemma canon_float_float: "canon (PFloat r) = canon (PFloat q) \<longleftrightarrow> r = q"
  by (auto; metis)

lemma py_eq_canon: "py_eq v w \<longleftrightarrow> canon v = canon w"
proof (induction v arbitrary: w)
  case PNone
  then show ?case by (cases w) (auto split: if_splits)
next
  case (PInt i)
  then show ?case by (cases w) (auto split: if_splits)
next
  case (PFloat r)
  show ?case
  proof (cases w)
    case (PInt j)
    then show ?thesis by auto
  next
    case (PFloat q)
    then show ?thesis using canon_float_float[of r q] by simp
  qed (simp_all del: canon.simps(1) add: eq_commute[of _ "canon (PFloat r)"])
next
  case (PStr s)
  then show ?case by (cases w) (auto split: if_splits)
next
  case (PTuple vs)
  then show ?case
    by (cases w) (auto simp: list_all2_map_eq[where f = canon] split: if_splits)
next
  case (PList vs)
  then show ?case
    by (cases w) (auto simp: list_all2_map_eq[where f = canon] split: if_splits)
next
  case (PType t)
  then show ?case by (cases w) (auto split: if_splits)
next
  case PMark
  then show ?case by (cases w) (auto split: if_splits)
qed

lemma key_eq_dict_key: "key_eq k l \<longleftrightarrow> dict_key k = dict_key l"
  by (cases k; cases l) (simp_all add: py_eq_canon list_all2_map_eq[where f = canon])

section \<open>Pointer fields under the store updates; paths\<close>

lemma next_of_set_next [simp]: "next_of (set_next h a v) = (next_of h)(a := v)"
  by (auto simp: next_of_def set_next_def)
lemma next_of_set_prev [simp]: "next_of (set_prev h a v) = next_of h"
  by (auto simp: next_of_def set_prev_def)
lemma next_of_set_key [simp]: "next_of (set_key h a v) = next_of h"
  by (auto simp: next_of_def set_key_def)
lemma next_of_set_result [simp]: "next_of (set_result h a v) = next_of h"
  by (auto simp: next_of_def set_result_def)
lemma prev_of_set_prev [simp]: "prev_of (set_prev h a v) = (prev_of h)(a := v)"
  by (auto simp: prev_of_def set_prev_def)
lemma prev_of_set_next [simp]: "prev_of (set_next h a v) = prev_of h"
  by (auto simp: prev_of_def set_next_def)
lemma prev_of_set_key [simp]: "prev_of (set_key h a v) = prev_of h"
  by (auto simp: prev_of_def set_key_def)
lemma prev_of_set_result [simp]: "prev_of (set_result h a v) = prev_of h"
  by (auto simp: prev_of_def set_result_def)
lemma entry_of_set_next [simp]: "entry_of (set_next h a v) = entry_of h"
  by (auto simp: entry_of_def set_next_def)
lemma entry_of_set_prev [simp]: "entry_of (set_prev h a v) = entry_of h"
  by (auto simp: entry_of_def set_prev_def)

lemma chain_append [simp]:
  "chain f x (as @ bs) y \<longleftrightarrow> (\<exists>z. chain f x as z \<and> chain f z bs y)"
  by (induction as arbitrary: x) auto

lemma chain_upd [simp]: "u \<notin> set as \<Longrightarrow> chain (f(u := v)) x as y = chain f x as y"
  by (induction as arbitrary: x) auto

lemma chain_end: "chain f (f r) as y \<Longrightarrow> y = f (last (r # as))"
  by (induction as arbitrary: r) auto

lemma walk_chain:
  "walk f r a n = Some as \<longleftrightarrow> chain f a as r \<and> r \<notin> set as \<and> length as \<le> n"
proof (induction n arbitrary: a as)
  case 0
  then show ?case by (cases as) auto
next
  case (Suc n)
  then show ?case by (cases as) auto
qed

lemma chain_unlink:
  assumes "distinct (r # xs @ a # ys)" "chain f (f r) (xs @ a # ys) r"
  shows "chain (f(last (r # xs) := f a)) ((f(last (r # xs) := f a)) r) (xs @ ys) r"
  using assms by (cases xs rule: rev_cases) auto

lemma ring_unlink:
  assumes "ring h r (xs @ a # ys)"
  shows "ring (set_prev (set_next h (prev_of h a) (next_of h a)) (next_of h a) (prev_of h a)) r (xs @ ys)"
proof -
  let ?f = "next_of h" and ?g = "prev_of h"
  from assms have d: "distinct (r # xs @ a # ys)"
    and cf: "chain ?f (?f r) (xs @ a # ys) r" and cg: "chain ?g (?g r) (rev ys @ a # rev xs) r"
    by (auto simp: ring_def)
  from cg have pa: "?g a = last (r # xs)"
    using chain_end[of ?g a "rev xs"] by (cases xs rule: rev_cases) auto
  from cf have na: "?f a = last (r # rev ys)"
    using chain_end[of ?f a ys] by (cases ys) auto
  have d': "distinct (r # rev ys @ a # rev xs)" using d by auto
  from chain_unlink[OF d cf] chain_unlink[OF d' cg] d
  show ?thesis by (simp add: ring_def pa na)
qed

section \<open>Rings and the consistency predicate\<close>

lemma ring_last: "ring h r as \<Longrightarrow> prev_of h r = last (r # as)"
  unfolding ring_def using chain_end[of "prev_of h" r "rev as" r]
  by (cases as rule: rev_cases) auto

lemma chain_link_last:
  assumes "distinct (r # as)" "a \<notin> set (r # as)" "chain f (f r) as r"
  shows "chain (f(last (r # as) := a, a := r)) ((f(last (r # as) := a, a := r)) r) (as @ [a]) r"
  using assms by (cases as rule: rev_cases) auto

lemma ring_link_last:
  assumes "ring h r as" "a \<notin> set (r # as)"
    and "next_of h' = (next_of h)(prev_of h r := a, a := r)"
    and "prev_of h' = (prev_of h)(r := a, a := prev_of h r)"
  shows "ring h' r (as @ [a])"
proof -
  have l: "prev_of h r = last (r # as)" using assms(1) by (rule ring_last)
  from assms(1) have d: "distinct (r # as)" and cf: "chain (next_of h) (next_of h r) as r"
    and cg: "chain (prev_of h) (prev_of h r) (rev as) r"
    by (auto simp: ring_def)
  have "chain (next_of h') (next_of h' r) (as @ [a]) r"
    unfolding assms(3) l using chain_link_last[OF d assms(2) cf] .
  moreover have "chain (prev_of h') (prev_of h' r) (rev (as @ [a])) r"
    unfolding assms(4) using cg d assms(2) by auto
  ultimately show ?thesis using d assms(2) by (auto simp: ring_def)
qed

lemma ring_rotate:
  assumes "ring h r (a # as)" "next_of h' = next_of h" "prev_of h' = prev_of h"
  shows "ring h' a (as @ [r])" "next_of h r = a"
  using assms by (auto simp: ring_def)

lemma ring_links_eq:
  assumes "ring (heap s) (root s) as" "length as \<le> length (cache s)"
  shows "ring_links s = Some as"
  using assms by (auto simp: ring_links_def walk_chain ring_def)

lemma abs_length:
  assumes "lru_abs s as" shows "length (cache s) = length as"
proof -
  from assms have d: "distinct (map fst (cache s))"
    and e: "set (cache s) = (\<lambda>a. (dict_key (lkey (heap s a)), a)) ` set as"
    and da: "distinct as"
    by (auto simp: lru_abs_def ring_def)
  have "distinct (cache s)" using d by (rule distinct_map[THEN iffD1, THEN conjunct1])
  then have "length (cache s) = card (set (cache s))" by (simp add: distinct_card)
  also have "\<dots> = card (set as)" unfolding e by (rule card_image) (auto simp: inj_on_def)
  also have "\<dots> = length as" using da by (simp add: distinct_card)
  finally show ?thesis .
qed

lemma lru_inv_iff: "lru_inv s \<longleftrightarrow> (\<exists>as. lru_abs s as)"
proof
  assume "lru_inv s" then show "\<exists>as. lru_abs s as"
    by (auto simp: lru_inv_def split: option.splits)
next
  assume "\<exists>as. lru_abs s as"
  then obtain as where a: "lru_abs s as" ..
  then have "ring_links s = Some as"
    using abs_length[OF a] by (intro ring_links_eq) (auto simp: lru_abs_def)
  with a show "lru_inv s" by (simp add: lru_inv_def)
qed

lemma abs_ring_links: "lru_abs s as \<Longrightarrow> ring_links s = Some as"
  using abs_length[of s as] by (intro ring_links_eq) (auto simp: lru_abs_def)

lemma abs_entries: "lru_abs s as \<Longrightarrow> lru_entries s = Some (map (entry_of (heap s)) as)"
  by (simp add: lru_entries_def abs_ring_links)

section \<open>A hit: the link moves to the most-recent end\<close>

lemma lkey_set_next [simp]: "lkey (set_next h a v x) = lkey (h x)"
  by (simp add: set_next_def)
lemma lkey_set_prev [simp]: "lkey (set_prev h a v x) = lkey (h x)"
  by (simp add: set_prev_def)
lemma lresult_set_next [simp]: "lresult (set_next h a v x) = lresult (h x)"
  by (simp add: set_next_def)
lemma lresult_set_prev [simp]: "lresult (set_prev h a v x) = lresult (h x)"
  by (simp add: set_prev_def)

lemma abs_lookup:
  assumes "lru_abs s as"
  shows "map_of (cache s) k = Some a \<longleftrightarrow> a \<in> set as \<and> dict_key (lkey (heap s a)) = k"
  using assms by (auto simp: lru_abs_def)

lemma promote_fields [simp]:
  "cache (snd (promote a s)) = cache s"
  "root (snd (promote a s)) = root s"
  "fresh (snd (promote a s)) = fresh s"
  "full (snd (promote a s)) = full s"
  "hits (snd (promote a s)) = hits s + 1"
  "misses (snd (promote a s)) = misses s"
  "fst (promote a s) = lresult (heap s a)"
  "entry_of (heap (snd (promote a s))) = entry_of (heap s)"
  "lkey (heap (snd (promote a s)) x) = lkey (heap s x)"
  by (simp_all add: promote_def Let_def)

lemma promote_abs:
  assumes A: "lru_abs s as" and a: "a \<in> set as"
  shows "lru_abs (snd (promote a s)) (remove1 a as @ [a])"
proof -
  let ?h = "heap s" and ?r = "root s" and ?s' = "snd (promote a s)"
  from A have R: "ring ?h ?r as" by (simp add: lru_abs_def)
  then have d: "distinct (?r # as)" by (simp add: ring_def)
  from a obtain xs ys where as: "as = xs @ a # ys" by (auto dest: split_list)
  with d have nx: "a \<notin> set xs" "a \<notin> set ys" "a \<noteq> ?r" by auto
  then have rem: "remove1 a as = xs @ ys" by (simp add: as remove1_append)
  define h2 where
    "h2 = set_prev (set_next ?h (prev_of ?h a) (next_of ?h a)) (next_of ?h a) (prev_of ?h a)"
  have R2: "ring h2 ?r (xs @ ys)"
    unfolding h2_def using R[unfolded as] by (rule ring_unlink)
  have hn: "next_of (heap ?s') = (next_of h2)(prev_of h2 ?r := a, a := ?r)"
    by (simp add: promote_def Let_def h2_def next_of_def[symmetric] prev_of_def[symmetric])
  have hp: "prev_of (heap ?s') = (prev_of h2)(?r := a, a := prev_of h2 ?r)"
    by (simp add: promote_def Let_def h2_def next_of_def[symmetric] prev_of_def[symmetric])
  have R': "ring (heap ?s') ?r ((xs @ ys) @ [a])"
    using R2 _ hn hp by (rule ring_link_last) (use nx in auto)
  have E: "set (map (\<lambda>x. (dict_key (lkey (heap ?s' x)), x)) (xs @ ys @ [a])) = set (cache s)"
    using A by (auto simp: lru_abs_def as)
  have F: "list_all (\<lambda>x. x < fresh s) (?r # xs @ ys @ [a])"
    using A by (auto simp: lru_abs_def as)
  from A R' E F show ?thesis
    unfolding rem lru_abs_def by simp
qed

section \<open>A miss: a new link, or the old root reused\<close>

lemma alist_update_new: "map_of al k = None \<Longrightarrow> AList.update k v al = al @ [(k, v)]"
  by (induction al) auto

lemma alist_delete_set:
  "distinct (map fst al) \<Longrightarrow> (k, v) \<in> set al \<Longrightarrow> set (AList.delete k al) = set al - {(k, v)}"
  by (induction al) (auto simp: rev_image_eqI)

lemma lru_abs_counters [simp]:
  "lru_abs (s\<lparr>misses := m\<rparr>) as = lru_abs s as"
  "lru_abs (s\<lparr>hits := n\<rparr>) as = lru_abs s as"
  by (simp_all add: lru_abs_def)

lemma lru_abs_full: "cache s \<noteq> [] \<Longrightarrow> lru_abs (s\<lparr>full := b\<rparr>) as = lru_abs s as"
  by (simp add: lru_abs_def)

lemma link_new_fields [simp]:
  "root (link_new k r s) = root s"
  "fresh (link_new k r s) = fresh s + 1"
  "full (link_new k r s) = full s"
  "hits (link_new k r s) = hits s"
  "misses (link_new k r s) = misses s"
  "cache (link_new k r s) = AList.update (dict_key k) (fresh s) (cache s)"
  by (simp_all add: link_new_def Let_def)

lemma link_new_abs:
  assumes A: "lru_abs s as" and k: "map_of (cache s) (dict_key key) = None"
  shows "lru_abs (link_new key result s) (as @ [fresh s])"
    and "map (entry_of (heap (link_new key result s))) (as @ [fresh s])
         = map (entry_of (heap s)) as @ [(key, result)]"
proof -
  let ?h = "heap s" and ?r = "root s" and ?s' = "link_new key result s" and ?a = "fresh s"
  from A have R: "ring ?h ?r as" and lt: "\<forall>x\<in>set (?r # as). x < ?a"
    by (simp_all add: lru_abs_def list_all_iff)
  from lt have nin: "?a \<notin> set (?r # as)" by auto
  have l: "prev_of ?h ?r = last (?r # as)" using R by (rule ring_last)
  then have lin: "prev_of ?h ?r \<in> set (?r # as)" using last_in_set[of "?r # as"] by simp
  with nin have ne: "prev_of ?h ?r \<noteq> ?a" "?r \<noteq> ?a" by auto
  have hn: "next_of (heap ?s') = (next_of ?h)(prev_of ?h ?r := ?a, ?a := ?r)"
    using ne by (auto simp: link_new_def Let_def prev_of_def[symmetric] fun_eq_iff next_of_def)
  have hp: "prev_of (heap ?s') = (prev_of ?h)(?r := ?a, ?a := prev_of ?h ?r)"
    using ne by (auto simp: link_new_def Let_def fun_eq_iff prev_of_def set_next_def set_prev_def)
  have R': "ring (heap ?s') ?r (as @ [?a])"
    using R nin hn hp by (rule ring_link_last)
  have ent: "entry_of (heap ?s') x = (if x = ?a then (key, result) else entry_of ?h x)" for x
    by (simp add: link_new_def Let_def entry_of_def set_next_def set_prev_def)
  have lk: "lkey (heap ?s' x) = (if x = ?a then key else lkey (?h x))" for x
    using ent[of x] by (simp add: entry_of_def split: if_splits)
  have c: "cache ?s' = cache s @ [(dict_key key, ?a)]"
    using k by (simp add: alist_update_new)
  have nk: "dict_key key \<notin> fst ` set (cache s)"
    using k by (simp add: map_of_eq_None_iff)
  have km: "map (\<lambda>x. (dict_key (lkey (heap ?s' x)), x)) as
      = map (\<lambda>x. (dict_key (lkey (?h x)), x)) as"
    using nin by (auto simp: lk)
  have la: "list_all (\<lambda>x. x < fresh ?s') (root ?s' # as @ [?a])"
    using lt by (auto simp: list_all_iff)
  have "set (cache ?s') = set (map (\<lambda>x. (dict_key (lkey (heap ?s' x)), x)) (as @ [?a]))"
    using A lk[of ?a] unfolding c by (simp add: km lru_abs_def)
  moreover have "distinct (map fst (cache ?s'))"
    using A nk unfolding c by (simp add: lru_abs_def)
  moreover have "cache ?s' \<noteq> []" unfolding c by simp
  ultimately show "lru_abs ?s' (as @ [?a])"
    using R' la unfolding lru_abs_def by simp
  show "map (entry_of (heap ?s')) (as @ [?a]) = map (entry_of ?h) as @ [(key, result)]"
    using nin by (auto simp: ent)
qed

lemma reuse_root_fields [simp]:
  "cache (snd (reuse_root k r s)) = cache s"
  "fresh (snd (reuse_root k r s)) = fresh s"
  "full (snd (reuse_root k r s)) = full s"
  "hits (snd (reuse_root k r s)) = hits s"
  "misses (snd (reuse_root k r s)) = misses s"
  "root (snd (reuse_root k r s)) = next_of (heap s) (root s)"
  "next_of (heap (snd (reuse_root k r s))) = next_of (heap s)"
  "prev_of (heap (snd (reuse_root k r s))) = prev_of (heap s)"
  by (simp_all add: reuse_root_def Let_def next_of_def[symmetric])

lemma reuse_root_abs:
  fixes key :: key and result :: pyval and s :: "nat lru_state"
  assumes A: "lru_abs s (a # as)" and k: "map_of (cache s) (dict_key key) = None"
  defines "s1 \<equiv> snd (reuse_root key result s)"
  defines "s2 \<equiv> s1\<lparr>cache := AList.update (dict_key key) (root s)
                                (AList.delete (dict_key (lkey (heap s a))) (cache s1))\<rparr>"
  shows "fst (reuse_root key result s) = lkey (heap s a)"
    and "root s1 = a"
    and "map_of (cache s) (dict_key (lkey (heap s a))) = Some a"
    and "lru_abs s2 (as @ [root s])"
    and "map (entry_of (heap s2)) (as @ [root s]) = map (entry_of (heap s)) as @ [(key, result)]"
proof -
  let ?h = "heap s" and ?r = "root s"
  from A have R: "ring ?h ?r (a # as)" and lt: "\<forall>x\<in>set (?r # a # as). x < fresh s"
    and dc: "distinct (map fst (cache s))"
    and sc: "set (cache s) = set (map (\<lambda>x. (dict_key (lkey (?h x)), x)) (a # as))"
    by (simp_all add: lru_abs_def list_all_iff)
  from R have d: "distinct (?r # a # as)" by (simp add: ring_def)
  have na: "next_of ?h ?r = a" using R by (simp add: ring_def)
  show r1: "root s1 = a" by (simp add: s1_def na)
  have ra: "a \<noteq> ?r" using d by auto
  show ok: "fst (reuse_root key result s) = lkey (?h a)"
    using ra na by (simp add: reuse_root_def Let_def next_of_def set_key_def set_result_def)
  show m: "map_of (cache s) (dict_key (lkey (?h a))) = Some a"
    using A by (simp add: abs_lookup)
  have R': "ring (heap s1) a (as @ [?r])"
    using R by (rule ring_rotate) (simp_all add: s1_def)
  have ent: "entry_of (heap s1) x
      = (if x = a then (Fast PNone, PNone) else if x = ?r then (key, result) else entry_of ?h x)" for x
    using na by (simp add: s1_def reuse_root_def Let_def entry_of_def set_key_def set_result_def next_of_def)
  have h2: "heap s2 = heap s1" "root s2 = a" "fresh s2 = fresh s" "full s2 = full s"
    by (simp_all add: s2_def s1_def na)
  have lk: "lkey (heap s1 x) = (if x = a then Fast PNone else if x = ?r then key else lkey (?h x))" for x
    using ent[of x] ra by (simp add: entry_of_def split: if_splits)
  have mem: "(dict_key (lkey (?h a)), a) \<in> set (cache s)" using sc by simp
  have kd: "map_of (AList.delete (dict_key (lkey (?h a))) (cache s)) (dict_key key) = None"
    using k by (simp add: delete_conv')
  have c: "cache s2 = AList.delete (dict_key (lkey (?h a))) (cache s) @ [(dict_key key, ?r)]"
    using kd by (simp add: s2_def s1_def alist_update_new)
  have sd: "set (AList.delete (dict_key (lkey (?h a))) (cache s))
      = set (map (\<lambda>x. (dict_key (lkey (?h x)), x)) as)"
    using alist_delete_set[OF dc mem] sc d by auto
  have nk: "dict_key key \<notin> fst ` set (AList.delete (dict_key (lkey (?h a))) (cache s))"
    using kd by (simp add: map_of_eq_None_iff)
  have km: "map (\<lambda>x. (dict_key (lkey (heap s1 x)), x)) as
      = map (\<lambda>x. (dict_key (lkey (?h x)), x)) as"
    using d by (auto simp: lk)
  have la: "list_all (\<lambda>x. x < fresh s) (a # as @ [?r])"
    using lt by (auto simp: list_all_iff)
  have "set (cache s2) = set (map (\<lambda>x. (dict_key (lkey (heap s1 x)), x)) (as @ [?r]))"
    unfolding c using ra lk[of ?r] by (simp add: km sd)
  moreover have "distinct (map fst (cache s2))"
    using dc nk unfolding c by (simp add: distinct_delete)
  moreover have "cache s2 \<noteq> []" unfolding c by simp
  ultimately show "lru_abs s2 (as @ [?r])"
    using R' la unfolding lru_abs_def h2 by simp
  show "map (entry_of (heap s2)) (as @ [?r]) = map (entry_of ?h) as @ [(key, result)]"
    using d by (auto simp: ent h2)
qed

section \<open>The wrappers against the recency order of the specification\<close>

lemma filter_eq_single: "distinct xs \<Longrightarrow> a \<in> set xs \<Longrightarrow> [x\<leftarrow>xs. x = a] = [a]"
  by (induction xs) (auto simp: filter_empty_conv)

lemma filter_neq_remove1: "distinct xs \<Longrightarrow> [x\<leftarrow>xs. x \<noteq> a] = remove1 a xs"
  by (induction xs) (auto simp: remove1_idem)

lemma abs_same_key:
  assumes A: "lru_abs s as" and m: "map_of (cache s) (dict_key key) = Some a" and x: "x \<in> set as"
  shows "same_key key (entry_of (heap s) x) \<longleftrightarrow> x = a"
proof
  assume "same_key key (entry_of (heap s) x)"
  then have "dict_key (lkey (heap s x)) = dict_key key"
    by (simp add: same_key_def entry_of_def)
  with x have "map_of (cache s) (dict_key key) = Some x"
    by (simp add: abs_lookup[OF A])
  with m show "x = a" by simp
next
  assume "x = a"
  with m show "same_key key (entry_of (heap s) x)"
    by (simp add: abs_lookup[OF A] same_key_def entry_of_def)
qed

lemma abs_no_key:
  assumes A: "lru_abs s as" and m: "map_of (cache s) (dict_key key) = None"
  shows "\<not> list_ex (same_key key) (map (entry_of (heap s)) as)"
proof -
  have "\<not> same_key key (entry_of (heap s) x)" if "x \<in> set as" for x
    using abs_lookup[OF A, of "dict_key key" x] m that
    by (auto simp: same_key_def entry_of_def)
  then show ?thesis by (auto simp: list_ex_iff)
qed

text \<open>Hit.\<close>

lemma linked_hit:
  assumes A: "lru_abs s as" and K: "make_key args kwds ty = Inr key"
    and m: "map_of (cache s) (dict_key key) = Some a"
  defines "s' \<equiv> snd (promote a s)"
  shows "linked_wrapper is_full ty uf args kwds s = (Inr (lresult (heap s a)), s')"
    and "lru_abs s' (remove1 a as @ [a])"
    and "map (entry_of (heap s')) (remove1 a as @ [a])
         = spec_access (full s) key res (map (entry_of (heap s)) as)"
    and "hits s' = hits s + 1" and "misses s' = misses s" and "cache s' = cache s"
    and "full s' = full s" and "fresh s' = fresh s" and "root s' = root s"
proof -
  have a: "a \<in> set as" using abs_lookup[OF A] m by simp
  have d: "distinct as" using A by (simp add: lru_abs_def ring_def)
  show "linked_wrapper is_full ty uf args kwds s = (Inr (lresult (heap s a)), s')"
    by (simp add: linked_wrapper_def K m s'_def split_beta)
  show "lru_abs s' (remove1 a as @ [a])"
    unfolding s'_def using A a by (rule promote_abs)
  have f1: "[x\<leftarrow>as. same_key key (entry_of (heap s) x)] = [a]"
    unfolding filter_eq_single[OF d a, symmetric]
    by (rule filter_cong) (simp_all add: abs_same_key[OF A m])
  have f2: "[x\<leftarrow>as. \<not> same_key key (entry_of (heap s) x)] = remove1 a as"
    unfolding filter_neq_remove1[OF d, of a, symmetric]
    by (rule filter_cong) (simp_all add: abs_same_key[OF A m])
  have ex: "list_ex (same_key key) (map (entry_of (heap s)) as)"
    using a abs_same_key[OF A m a] by (auto simp: list_ex_iff)
  show "map (entry_of (heap s')) (remove1 a as @ [a])
         = spec_access (full s) key res (map (entry_of (heap s)) as)"
    using ex by (simp add: spec_access_def filter_map o_def f1 f2 s'_def)
qed (simp_all add: s'_def)

section \<open>The second locked section\<close>

lemma promote_lresult [simp]: "lresult (heap (snd (promote a s)) x) = lresult (heap s x)"
  by (simp add: promote_def Let_def)

lemma linked_miss:
  assumes "make_key args kwds ty = Inr key" "map_of (cache s) (dict_key key) = None"
    and "uf args kwds = Inr res"
  shows "linked_wrapper is_full ty uf args kwds s = store_result is_full key res s"
  using assms by (simp add: linked_wrapper_def)

text \<open>Miss on a cache that is not full.\<close>

lemma store_insert:
  fixes key :: key and res :: pyval and s :: "nat lru_state" and is_full :: "nat \<Rightarrow> exn + bool"
  assumes A: "lru_abs s as" and m: "map_of (cache s) (dict_key key) = None" and nf: "\<not> full s"
  defines "s1 \<equiv> link_new key res s"
  shows "store_result is_full key res s =
          (case is_full (Suc (length as)) of
             Inl e \<Rightarrow> (Inl e, s1)
           | Inr b \<Rightarrow> (Inr res, s1\<lparr>full := b, misses := misses s + 1\<rparr>))"
    and "lru_abs s1 (as @ [fresh s])"
    and "lru_abs (s1\<lparr>full := b, misses := n\<rparr>) (as @ [fresh s])"
    and "map (entry_of (heap s1)) (as @ [fresh s])
         = spec_access (full s) key res (map (entry_of (heap s)) as)"
    and "map_of (cache s1) (dict_key key) = Some (fresh s)"
    and "entry_of (heap s1) (fresh s) = (key, res)"
proof -
  show abs1: "lru_abs s1 (as @ [fresh s])"
    unfolding s1_def using A m by (rule link_new_abs)
  have len: "length (cache s1) = Suc (length as)"
    using abs_length[OF abs1] by simp
  show "store_result is_full key res s =
          (case is_full (Suc (length as)) of
             Inl e \<Rightarrow> (Inl e, s1)
           | Inr b \<Rightarrow> (Inr res, s1\<lparr>full := b, misses := misses s + 1\<rparr>))"
    using m nf len by (simp add: store_result_def Let_def s1_def split: sum.splits)
  have ne: "cache s1 \<noteq> []" using len by auto
  have "lru_abs (s1\<lparr>full := b\<rparr>) (as @ [fresh s])"
    using abs1 ne by (simp add: lru_abs_full)
  then show "lru_abs (s1\<lparr>full := b, misses := n\<rparr>) (as @ [fresh s])"
    by simp
  have ent: "map (entry_of (heap s1)) (as @ [fresh s]) = map (entry_of (heap s)) as @ [(key, res)]"
    unfolding s1_def using A m by (rule link_new_abs)
  then show "entry_of (heap s1) (fresh s) = (key, res)" by simp
  show "map (entry_of (heap s1)) (as @ [fresh s])
         = spec_access (full s) key res (map (entry_of (heap s)) as)"
    using abs_no_key[OF A m] nf ent by (simp add: spec_access_def)
  show "map_of (cache s1) (dict_key key) = Some (fresh s)"
    by (simp add: s1_def update_conv')
qed

text \<open>Miss on a full cache.\<close>

lemma store_evict:
  fixes key :: key and res :: pyval and s :: "nat lru_state" and is_full :: "nat \<Rightarrow> exn + bool"
  assumes A: "lru_abs s as" and m: "map_of (cache s) (dict_key key) = None" and f: "full s"
  defines "s' \<equiv> snd (store_result is_full key res s)"
  shows "fst (store_result is_full key res s) = Inr res"
    and "lru_abs s' (tl as @ [root s])"
    and "map (entry_of (heap s')) (tl as @ [root s])
         = spec_access (full s) key res (map (entry_of (heap s)) as)"
    and "map_of (cache s') (dict_key key) = Some (root s)"
    and "entry_of (heap s') (root s) = (key, res)"
    and "map_of (cache s') (dict_key (lkey (heap s (hd as)))) = None"
    and "root s' = hd as" and "fresh s' = fresh s" and "full s'"
    and "hits s' = hits s" and "misses s' = misses s + 1"
    and "as \<noteq> []"
proof -
  have "cache s \<noteq> []" using A f by (simp add: lru_abs_def)
  then show ne: "as \<noteq> []" using abs_length[OF A] by auto
  then obtain a as0 where as: "as = a # as0" by (cases as) auto
  note rr = reuse_root_abs[OF A[unfolded as] m]
  let ?s1 = "snd (reuse_root key res s)"
  let ?s2 = "?s1\<lparr>cache := AList.update (dict_key key) (root s)
                               (AList.delete (dict_key (lkey (heap s a))) (cache ?s1))\<rparr>"
  have sr: "store_result is_full key res s = (Inr res, ?s2\<lparr>misses := misses s + 1\<rparr>)"
    using m f rr(1) rr(3) by (simp add: store_result_def split_beta)
  show "fst (store_result is_full key res s) = Inr res" by (simp add: sr)
  have s': "s' = ?s2\<lparr>misses := misses s + 1\<rparr>" by (simp add: s'_def sr)
  show abs': "lru_abs s' (tl as @ [root s])"
    using rr(4) by (simp add: s' as)
  have ent: "map (entry_of (heap s')) (tl as @ [root s])
      = map (entry_of (heap s)) as0 @ [(key, res)]"
    using rr(5) by (simp add: s' as)
  then show "entry_of (heap s') (root s) = (key, res)" by (simp add: as)
  show "map (entry_of (heap s')) (tl as @ [root s])
         = spec_access (full s) key res (map (entry_of (heap s)) as)"
    using abs_no_key[OF A m] f ent by (simp add: spec_access_def as)
  show "map_of (cache s') (dict_key key) = Some (root s)"
    by (simp add: s' update_conv')
  have "dict_key (lkey (heap s a)) \<noteq> dict_key key" using m rr(3) by auto
  then show "map_of (cache s') (dict_key (lkey (heap s (hd as)))) = None"
    by (simp add: s' as update_conv' delete_conv')
  show "root s' = hd as" using rr(2) by (simp add: s' as)
  show "fresh s' = fresh s" "full s'" "hits s' = hits s" "misses s' = misses s + 1"
    using f by (simp_all add: s')
qed

section \<open>Evaluation; counters and failures of the user function\<close>

lemmas eval_defs = linked_wrapper_def wrapper_fixed_def wrapper_memory_def wrapper_unbounded_def
  wrapper_disabled_def make_key_def store_result_def link_new_def reuse_root_def promote_def
  decorating_function_def fixed_full_def memory_full_def fasttypes_def Let_def empty_link_def
  set_next_def set_prev_def set_key_def set_result_def echo_def failing_def default_config_def
  counted_once_def cache_clear_def cache_info_def

lemma linked_counted:
  "linked_wrapper is_full ty uf args kwds s = (Inr r, s') \<Longrightarrow> counted_once s s'"
  by (auto simp: linked_wrapper_def store_result_def promote_def Let_def counted_once_def
      link_new_def reuse_root_def split: sum.splits option.splits if_splits prod.splits)

text \<open>Claim C10.  In each of the four wrappers, a call that returns (raises nothing)
  is counted once: either \<open>hits\<close> or \<open>misses\<close> goes up by exactly one and the other
  counter keeps its value.  The wrapper for \<open>maxsize=0\<close> always counts a miss.  The
  branch of the second locked section that finds the key already stored (it was inserted
  while the lock was released) stores nothing and still counts the miss.\<close>

theorem exactly_one_counter:
  "(wrapper_memory cfg uf args kwds avail s = (Inr r, s') \<longrightarrow> counted_once s s')
   \<and> (wrapper_fixed cfg uf args kwds s = (Inr r, s') \<longrightarrow> counted_once s s')
   \<and> (wrapper_unbounded cfg uf args kwds u = (Inr r, u') \<longrightarrow> counted_once u u')
   \<and> (wrapper_disabled uf args kwds d = (Inr r, d') \<longrightarrow>
        hits d' = hits d \<and> misses d' = misses d + 1)
   \<and> (map_of (cache s) (dict_key key) \<noteq> None \<longrightarrow>
        store_result is_full key r s = (Inr r, s\<lparr>misses := misses s + 1\<rparr>))"
proof (intro conjI impI)
  show "counted_once s s'" if "wrapper_memory cfg uf args kwds avail s = (Inr r, s')"
    using that unfolding wrapper_memory_def by (rule linked_counted)
  show "counted_once s s'" if "wrapper_fixed cfg uf args kwds s = (Inr r, s')"
    using that unfolding wrapper_fixed_def by (rule linked_counted)
  show "counted_once u u'" if "wrapper_unbounded cfg uf args kwds u = (Inr r, u')"
    using that by (auto simp: wrapper_unbounded_def counted_once_def
        split: sum.splits option.splits)
  show "hits d' = hits d" "misses d' = misses d + 1"
    if "wrapper_disabled uf args kwds d = (Inr r, d')"
    using that by (auto simp: wrapper_disabled_def split: sum.splits)
  show "store_result is_full key r s = (Inr r, s\<lparr>misses := misses s + 1\<rparr>)"
    if "map_of (cache s) (dict_key key) \<noteq> None"
    using that by (simp add: store_result_def)
qed

theorem exactly_one_counter_witness:
  "wrapper_fixed default_config echo [PInt 1] [] decorating_function
     = (Inr (PTuple [PInt 1]), snd (wrapper_fixed default_config echo [PInt 1] [] decorating_function))
   \<and> counted_once decorating_function
        (snd (wrapper_fixed default_config echo [PInt 1] [] decorating_function))
   \<and> misses (snd (wrapper_disabled echo [PInt 1] [] (decorating_function :: nat lru_state))) = 1"
proof -
  have e: "wrapper_fixed default_config echo [PInt 1] [] decorating_function
     = (Inr (PTuple [PInt 1]), snd (wrapper_fixed default_config echo [PInt 1] [] decorating_function))"
    by (simp add: eval_defs)
  have d: "wrapper_disabled echo [PInt 1] [] (decorating_function :: nat lru_state)
     = (Inr (PTuple [PInt 1]), snd (wrapper_disabled echo [PInt 1] [] decorating_function))"
    by (simp add: eval_defs)
  from exactly_one_counter[of default_config echo "[PInt 1]" "[]" _ decorating_function
      "PTuple [PInt 1]" "snd (wrapper_fixed default_config echo [PInt 1] [] decorating_function)"
      _ _ "decorating_function :: nat lru_state"
      "snd (wrapper_disabled echo [PInt 1] [] decorating_function)"] e d
  show ?thesis by (simp add: decorating_function_def)
qed

text \<open>Claim C5.  When the user function raises on a call that reaches it (always in the
  \<open>maxsize=0\<close> wrapper; in the others when the key is built and not stored), the
  wrapper raises the same exception and the whole state, dictionary, links and both
  counters, is the state before the call.\<close>

theorem compute_failure_leaves_state:
  "uf args kwds = Inl e \<Longrightarrow>
    wrapper_disabled uf args kwds d = (Inl e, d)
    \<and> (make_key args kwds (typed cfg) = Inr key \<and> map_of (cache u) (dict_key key) = None \<longrightarrow>
         wrapper_unbounded cfg uf args kwds u = (Inl e, u))
    \<and> (make_key args kwds (typed cfg) = Inr key \<and> map_of (cache s) (dict_key key) = None \<longrightarrow>
         wrapper_memory cfg uf args kwds avail s = (Inl e, s)
         \<and> wrapper_fixed cfg uf args kwds s = (Inl e, s))"
  by (simp add: wrapper_disabled_def wrapper_unbounded_def wrapper_memory_def wrapper_fixed_def
      linked_wrapper_def)

theorem compute_failure_leaves_state_witness:
  "failing [PInt 1] [] = Inl (Raised ''boom'')
   \<and> make_key [PInt 1] [] (typed default_config) = Inr (Fast (PInt 1))
   \<and> map_of (cache (decorating_function :: nat lru_state)) (dict_key (Fast (PInt 1))) = None
   \<and> wrapper_fixed default_config failing [PInt 1] [] decorating_function
       = (Inl (Raised ''boom''), decorating_function)
   \<and> wrapper_memory default_config failing [PInt 1] [] (Inr 0) decorating_function
       = (Inl (Raised ''boom''), decorating_function)
   \<and> wrapper_unbounded default_config failing [PInt 1] [] decorating_function
       = (Inl (Raised ''boom''), decorating_function)
   \<and> wrapper_disabled failing [PInt 1] [] (decorating_function :: nat lru_state)
       = (Inl (Raised ''boom''), decorating_function)"
proof -
  have f: "failing [PInt 1] [] = Inl (Raised ''boom'')" by (simp add: failing_def)
  have k: "make_key [PInt 1] [] (typed default_config) = Inr (Fast (PInt 1))"
    by (simp add: make_key_def default_config_def fasttypes_def)
  have m: "map_of (cache (decorating_function :: nat lru_state)) (dict_key (Fast (PInt 1))) = None"
    by (simp add: decorating_function_def)
  have m': "map_of (cache (decorating_function :: pyval lru_state)) (dict_key (Fast (PInt 1))) = None"
    by (simp add: decorating_function_def)
  from compute_failure_leaves_state[where uf = failing and args = "[PInt 1]" and kwds = "[]"
      and e = "Raised ''boom''" and d = "decorating_function :: nat lru_state"
      and cfg = default_config and key = "Fast (PInt 1)" and u = decorating_function
      and s = decorating_function and avail = "Inr 0"] f k m m'
  show ?thesis by simp
qed

section \<open>Unhashable arguments\<close>

lemma fasttype_hashable: "type_of v \<in> fasttypes \<Longrightarrow> hashable v"
  by (cases v) (auto simp: fasttypes_def)

lemma make_key_unhashable:
  assumes "\<not> list_all hashable (args @ map snd kwds)"
  shows "make_key args kwds ty = Inl TypeError"
proof -
  from assms obtain v where v: "v \<in> set args \<or> v \<in> snd ` set kwds" "\<not> hashable v"
    by (auto simp: list_all_iff)
  define items where "items = concat (map (\<lambda>(k, v). [PStr k, v]) (sort_key fst kwds))"
  have items: "w \<in> snd ` set kwds \<Longrightarrow> w \<in> set items" for w
    by (force simp: items_def)
  have len: "kwds \<noteq> [] \<Longrightarrow> items \<noteq> []"
    by (cases "sort_key fst kwds") (auto simp: items_def dest: arg_cong[where f = length])
  show ?thesis
  proof (cases "kwds = []")
    case True
    with v have "v \<in> set args" by auto
    with v(2) True show ?thesis
      by (cases args; cases "tl args")
        (auto simp: make_key_def Let_def list_all_iff dest: fasttype_hashable)
  next
    case False
    with v items[of v] len show ?thesis
      by (auto simp: make_key_def Let_def list_all_iff items_def[symmetric])
  qed
qed

text \<open>Claim C6 as stated fails for the configuration \<open>maxsize=0\<close>: that wrapper
  builds no key, so a call with an unhashable argument reaches the user function, returns
  its result and counts a miss.\<close>

theorem unhashable_disabled_counterexample:
  "\<not> list_all hashable ([PList []] @ map snd [])
   \<and> lru_cache disabled_config = Disabled
   \<and> fst (wrapper_disabled echo [PList []] [] (decorating_function :: nat lru_state))
       = Inr (PTuple [PList []])
   \<and> misses (snd (wrapper_disabled echo [PList []] [] (decorating_function :: nat lru_state))) = 1"
  by (simp add: eval_defs lru_cache_def disabled_config_def)

text \<open>Claim C6, amended.  In the three wrappers that build a key (memory pressure, fixed
  capacity, unbounded), a call with an unhashable positional or keyword argument raises
  \<open>TypeError\<close> from the key-building step and leaves the whole state as it was; the
  wrapper for \<open>maxsize=0\<close> builds no key and hands the call to the user function.\<close>

theorem unhashable_argument_raises:
  "\<not> list_all hashable (args @ map snd kwds) \<Longrightarrow>
     make_key args kwds (typed cfg) = Inl TypeError
     \<and> wrapper_memory cfg uf args kwds avail s = (Inl TypeError, s)
     \<and> wrapper_fixed cfg uf args kwds s = (Inl TypeError, s)
     \<and> wrapper_unbounded cfg uf args kwds u = (Inl TypeError, u)
     \<and> fst (wrapper_disabled uf args kwds d) = uf args kwds"
  by (auto simp: make_key_unhashable wrapper_memory_def wrapper_fixed_def wrapper_unbounded_def
      linked_wrapper_def wrapper_disabled_def split: sum.splits)

theorem unhashable_argument_raises_witness:
  "\<not> list_all hashable ([PInt 1, PList []] @ map snd [(''k'', PNone)])
   \<and> wrapper_fixed default_config echo [PInt 1, PList []] [(''k'', PNone)] decorating_function
       = (Inl TypeError, decorating_function)
   \<and> wrapper_memory memory_config echo [PInt 1, PList []] [(''k'', PNone)] (Inr 0) decorating_function
       = (Inl TypeError, decorating_function)
   \<and> wrapper_unbounded default_config echo [PInt 1, PList []] [(''k'', PNone)] decorating_function
       = (Inl TypeError, decorating_function)"
proof -
  have h: "\<not> list_all hashable ([PInt 1, PList []] @ map snd [(''k'', PNone)])" by simp
  from unhashable_argument_raises[OF h, where cfg = default_config and uf = echo
        and avail = "Inr 0" and s = decorating_function and u = decorating_function
        and d = "decorating_function :: nat lru_state"]
    unhashable_argument_raises[OF h, where cfg = memory_config and uf = echo
        and avail = "Inr 0" and s = decorating_function and u = decorating_function
        and d = "decorating_function :: nat lru_state"]
    h
  show ?thesis by simp
qed

section \<open>A failing memory probe\<close>

lemma lru_inv_initial: "lru_inv decorating_function"
  by (simp add: lru_inv_def ring_links_def lru_abs_def ring_def decorating_function_def
      next_of_def prev_of_def empty_link_def)

text \<open>Claim C7 as stated fails: under the memory policy, an exception raised by the probe
  reaches the caller of the wrapped function.\<close>

theorem probe_failure_counterexample:
  "lru_cache memory_config = MemoryPressure
   \<and> fst (wrapper_memory memory_config echo [PInt 1] [] (Inl (Raised ''psutil'')) decorating_function)
       = Inl (Raised ''psutil'')"
  by (simp add: eval_defs lru_cache_def memory_config_def)

text \<open>Claim C7, amended.  Under the memory policy the probe is queried only by a miss
  taken while \<open>full\<close> is unset, and an exception it raises is not caught: that call
  raises it, with the new entry already linked and stored and with \<open>full\<close>, \<open>hits\<close>
  and \<open>misses\<close> unchanged.  The cache stays consistent and usable: the next call with
  the same arguments is a hit that returns the computed result.  A miss on a full cache
  does not query the probe and returns the result.\<close>

theorem probe_failure_propagates:
  assumes "lru_inv s" and "make_key args kwds (typed cfg) = Inr key"
    and "map_of (cache s) (dict_key key) = None" and "uf args kwds = Inr res"
  shows "(\<not> full s \<longrightarrow>
           wrapper_memory cfg uf args kwds (Inl e) s = (Inl e, link_new key res s)
           \<and> lru_inv (link_new key res s)
           \<and> length (cache (link_new key res s)) = length (cache s) + 1
           \<and> full (link_new key res s) = full s
           \<and> hits (link_new key res s) = hits s \<and> misses (link_new key res s) = misses s
           \<and> fst (wrapper_memory cfg uf args kwds avail (link_new key res s)) = Inr res
           \<and> hits (snd (wrapper_memory cfg uf args kwds avail (link_new key res s))) = hits s + 1)
         \<and> (full s \<longrightarrow> fst (wrapper_memory cfg uf args kwds (Inl e) s) = Inr res)"
proof (intro conjI impI)
  from assms(1) obtain as where A: "lru_abs s as" by (auto simp: lru_inv_iff)
  let ?s1 = "link_new key res s"
  {
    assume nf: "\<not> full s"
    note si = store_insert[OF A assms(3) nf, where res = res]
    show "wrapper_memory cfg uf args kwds (Inl e) s = (Inl e, ?s1)"
      by (simp add: wrapper_memory_def linked_miss[where uf = uf and args = args and kwds = kwds, OF assms(2,3,4)] si(1) memory_full_def)
    show "lru_inv ?s1" using si(2) by (auto simp: lru_inv_iff)
    show "length (cache ?s1) = length (cache s) + 1"
      using abs_length[OF si(2)] abs_length[OF A] by simp
    show "full ?s1 = full s" "hits ?s1 = hits s" "misses ?s1 = misses s" by simp_all
    note lh = linked_hit[OF si(2) assms(2) si(5)]
    have r: "lresult (heap ?s1 (fresh s)) = res" using si(6) by (simp add: entry_of_def)
    show "fst (wrapper_memory cfg uf args kwds avail ?s1) = Inr res"
      by (simp add: wrapper_memory_def lh(1) r)
    show "hits (snd (wrapper_memory cfg uf args kwds avail ?s1)) = hits s + 1"
      by (simp add: wrapper_memory_def lh(1))
  }
  {
    assume f: "full s"
    show "fst (wrapper_memory cfg uf args kwds (Inl e) s) = Inr res"
      by (simp add: wrapper_memory_def linked_miss[where uf = uf and args = args and kwds = kwds, OF assms(2,3,4)] store_evict(1)[OF A assms(3) f])
  }
qed

theorem probe_failure_propagates_witness:
  "lru_inv decorating_function
   \<and> wrapper_memory memory_config echo [PInt 1] [] (Inl (Raised ''psutil'')) decorating_function
      = (Inl (Raised ''psutil''), link_new (Fast (PInt 1)) (PTuple [PInt 1]) decorating_function)
   \<and> lru_inv (link_new (Fast (PInt 1)) (PTuple [PInt 1]) decorating_function)
   \<and> fst (wrapper_memory memory_config echo [PInt 1] [] (Inr 0)
        (link_new (Fast (PInt 1)) (PTuple [PInt 1]) decorating_function)) = Inr (PTuple [PInt 1])"
proof -
  have i: "lru_inv decorating_function"
    by (simp add: lru_inv_def ring_links_def lru_abs_def ring_def decorating_function_def
      next_of_def prev_of_def empty_link_def)
  have k: "make_key [PInt 1] [] (typed memory_config) = Inr (Fast (PInt 1))"
    by (simp add: make_key_def memory_config_def fasttypes_def)
  have m: "map_of (cache (decorating_function :: nat lru_state)) (dict_key (Fast (PInt 1))) = None"
    by (simp add: decorating_function_def)
  have u: "echo [PInt 1] [] = Inr (PTuple [PInt 1])" by (simp add: echo_def)
  have nf: "\<not> full (decorating_function :: nat lru_state)" by (simp add: decorating_function_def)
  from probe_failure_propagates[where uf = echo and args = "[PInt 1]" and kwds = "[]"
      and e = "Raised ''psutil''" and avail = "Inr 0", OF i k m u] nf i
  show ?thesis by simp
qed

section \<open>Calls on a consistent state\<close>

lemma store_evict_cache:
  fixes key :: key and res :: pyval and s :: "nat lru_state" and is_full :: "nat \<Rightarrow> exn + bool"
  assumes A: "lru_abs s as" and m: "map_of (cache s) (dict_key key) = None" and f: "full s"
  shows "cache (snd (store_result is_full key res s))
          = AList.update (dict_key key) (root s)
              (AList.delete (dict_key (lkey (heap s (hd as)))) (cache s))"
proof -
  have "as \<noteq> []" using A m f by (rule store_evict)
  then obtain a as0 where as: "as = a # as0" by (cases as) auto
  note rr = reuse_root_abs[OF A[unfolded as] m]
  show ?thesis
    using m f rr(1) rr(3) by (simp add: store_result_def split_beta as)
qed

text \<open>A call that reaches the user function and returns.\<close>

lemma linked_miss_call:
  fixes s :: "nat lru_state"
  assumes I: "lru_inv s" and K: "make_key args kwds ty = Inr key"
    and m: "map_of (cache s) (dict_key key) = None" and U: "uf args kwds = Inr res"
    and F: "\<not> full s \<Longrightarrow> is_full (Suc (length (cache s))) = Inr b"
  defines "s' \<equiv> snd (linked_wrapper is_full ty uf args kwds s)"
  shows "fst (linked_wrapper is_full ty uf args kwds s) = Inr res"
    and "lru_inv s'" and "hits s' = hits s" and "misses s' = misses s + 1"
    and "\<exists>a. map_of (cache s') (dict_key key) = Some a \<and> lresult (heap s' a) = res"
    and "\<And>k. k \<noteq> dict_key key \<Longrightarrow> map_of (cache s) k = None \<Longrightarrow> map_of (cache s') k = None"
    and "lru_entries s' = map_option (spec_access (full s) key res) (lru_entries s)"
proof -
  from I obtain as where A: "lru_abs s as" by (auto simp: lru_inv_iff)
  have lw: "linked_wrapper is_full ty uf args kwds s = store_result is_full key res s"
    using K m U by (rule linked_miss)
  have E: "lru_entries s = Some (map (entry_of (heap s)) as)" using A by (rule abs_entries)
  have "fst (linked_wrapper is_full ty uf args kwds s) = Inr res \<and> lru_inv s' \<and> hits s' = hits s
    \<and> misses s' = misses s + 1
    \<and> (\<exists>a. map_of (cache s') (dict_key key) = Some a \<and> lresult (heap s' a) = res)
    \<and> (\<forall>k. k \<noteq> dict_key key \<longrightarrow> map_of (cache s) k = None \<longrightarrow> map_of (cache s') k = None)
    \<and> lru_entries s' = map_option (spec_access (full s) key res) (lru_entries s)"
  proof (cases "full s")
    case True
    note se = store_evict(1-11)[OF A m True, where ?is_full = is_full and ?res = res, folded lw s'_def]
    have c: "cache s' = AList.update (dict_key key) (root s)
              (AList.delete (dict_key (lkey (heap s (hd as)))) (cache s))"
      unfolding s'_def lw using A m True by (rule store_evict_cache)
    have "lresult (heap s' (root s)) = res"
      using se(5) by (simp add: entry_of_def s'_def)
    moreover have "lru_entries s' = Some (spec_access (full s) key res (map (entry_of (heap s)) as))"
      using abs_entries[OF se(2)] se(3) by (simp add: s'_def)
    moreover have "lru_inv s'" using se(2) by (auto simp: lru_inv_iff s'_def)
    moreover have "map_of (cache s) k = None \<Longrightarrow> k \<noteq> dict_key key \<Longrightarrow> map_of (cache s') k = None" for k
      by (simp add: c update_conv' delete_conv')
    ultimately show ?thesis
      using se(1,4,10,11) by (auto simp: E s'_def)
  next
    case False
    have len: "length (cache s) = length as" using A by (rule abs_length)
    note si = store_insert[OF A m False]
    let ?s1 = "link_new key res s"
    have sr: "store_result is_full key res s = (Inr res, ?s1\<lparr>full := b, misses := misses s + 1\<rparr>)"
      using si(1) F[OF False] by (simp add: len)
    have s': "s' = ?s1\<lparr>full := b, misses := misses s + 1\<rparr>" by (simp add: s'_def lw sr)
    have "lresult (heap s' (fresh s)) = res" using si(6) by (simp add: s' entry_of_def)
    moreover have "map_of (cache s') (dict_key key) = Some (fresh s)" using si(5) by (simp add: s')
    moreover have "lru_inv s'"
      using si(3)[where b = b and n = "misses s + 1"] by (auto simp: lru_inv_iff s')
    moreover have "lru_entries s' = map_option (spec_access (full s) key res) (lru_entries s)"
      using abs_entries[OF si(3)[where b = b and n = "misses s + 1"]] si(4) by (simp add: s' E)
    moreover have "map_of (cache s) k = None \<Longrightarrow> k \<noteq> dict_key key \<Longrightarrow> map_of (cache s') k = None" for k
      by (simp add: s' update_conv')
    moreover have "fst (linked_wrapper is_full ty uf args kwds s) = Inr res" by (simp add: lw sr)
    moreover have "hits s' = hits s" "misses s' = misses s + 1" by (simp_all add: s')
    ultimately show ?thesis by blast
  qed
  then show "fst (linked_wrapper is_full ty uf args kwds s) = Inr res"
    and "lru_inv s'" and "hits s' = hits s" and "misses s' = misses s + 1"
    and "\<exists>a. map_of (cache s') (dict_key key) = Some a \<and> lresult (heap s' a) = res"
    and "\<And>k. k \<noteq> dict_key key \<Longrightarrow> map_of (cache s) k = None \<Longrightarrow> map_of (cache s') k = None"
    and "lru_entries s' = map_option (spec_access (full s) key res) (lru_entries s)"
    by blast+
qed

text \<open>A call whose key is stored.\<close>

lemma linked_hit_call:
  fixes s :: "nat lru_state" and uf :: user_function and is_full :: "nat \<Rightarrow> exn + bool"
  assumes I: "lru_inv s" and K: "make_key args kwds ty = Inr key"
    and m: "map_of (cache s) (dict_key key) = Some a"
  defines "s' \<equiv> snd (linked_wrapper is_full ty uf args kwds s)"
  shows "fst (linked_wrapper is_full ty uf args kwds s) = Inr (lresult (heap s a))"
    and "lru_inv s'" and "hits s' = hits s + 1" and "misses s' = misses s"
    and "cache s' = cache s" and "lresult (heap s' x) = lresult (heap s x)"
    and "full s' = full s" and "fresh s' = fresh s" and "root s' = root s"
    and "lru_entries s' = map_option (spec_access (full s) key res) (lru_entries s)"
proof -
  from I obtain as where A: "lru_abs s as" by (auto simp: lru_inv_iff)
  note lh = linked_hit[OF A K m]
  have s': "s' = snd (promote a s)" by (simp add: s'_def lh(1))
  show "fst (linked_wrapper is_full ty uf args kwds s) = Inr (lresult (heap s a))"
    by (simp add: lh(1))
  show "lru_inv s'" using lh(2) by (auto simp: lru_inv_iff s')
  show "hits s' = hits s + 1" "misses s' = misses s" "cache s' = cache s"
    "lresult (heap s' x) = lresult (heap s x)" "full s' = full s" "fresh s' = fresh s"
    "root s' = root s"
    by (simp_all add: s')
  show "lru_entries s' = map_option (spec_access (full s) key res) (lru_entries s)"
    using abs_entries[OF lh(2)] lh(3)[of res] abs_entries[OF A] by (simp add: s')
qed

section \<open>Typed and untyped keys\<close>







section \<open>The memory policy after the cache was found full\<close>

text \<open>Claim C3, on the code.  Threshold 1000 bytes.  The probe answers 500 after the first
  insertion, so \<open>full\<close> is set; the second call then evicts and does not query the
  probe, whose answer 5000 would have been at or above the threshold; the third call
  evicts again, and the cache ends with one entry although memory was available.\<close>

theorem memory_full_latch:
  "fst (run (step_memory memory_config echo)
         [Call [PInt 1] [] (Inr 500), Call [PInt 2] [] (Inr 5000), Call [PInt 3] [] (Inr 5000)]
         decorating_function)
     = [Inr (PTuple [PInt 1]), Inr (PTuple [PInt 2]), Inr (PTuple [PInt 3])]
   \<and> (let s = snd (run (step_memory memory_config echo)
         [Call [PInt 1] [] (Inr 500), Call [PInt 2] [] (Inr 5000), Call [PInt 3] [] (Inr 5000)]
         decorating_function)
      in map fst (cache s) = [Fast (PInt 3)] \<and> full s \<and> lru_entries s = Some [(Fast (PInt 3), PTuple [PInt 3])]
         \<and> cache_info memory_config s = (0, 3, None, 1))"
  by (simp add: eval_defs memory_config_def lru_entries_def ring_links_def next_of_def entry_of_def)

section \<open>The list and the dictionary hold the same keys\<close>

lemma linked_wrapper_inv:
  assumes I: "lru_inv s"
  shows "lru_inv (snd (linked_wrapper is_full ty uf args kwds s))"
proof (cases "make_key args kwds ty")
  case (Inl e)
  with I show ?thesis by (simp add: linked_wrapper_def)
next
  case (Inr key)
  show ?thesis
  proof (cases "map_of (cache s) (dict_key key)")
    case (Some a)
    show ?thesis using I Inr Some by (rule linked_hit_call)
  next
    case None
    show ?thesis
    proof (cases "uf args kwds")
      case (Inl e)
      with I Inr None show ?thesis by (simp add: linked_wrapper_def)
    next
      case r: (Inr res)
      from I obtain as where A: "lru_abs s as" by (auto simp: lru_inv_iff)
      have lw: "linked_wrapper is_full ty uf args kwds s = store_result is_full key res s"
        using Inr None r by (rule linked_miss)
      show ?thesis
      proof (cases "full s")
        case True
        show ?thesis unfolding lw using store_evict(2)[OF A None True]
          by (auto simp: lru_inv_iff)
      next
        case False
        note si = store_insert[OF A None False]
        show ?thesis unfolding lw si(1) using si(2) si(3)
          by (auto simp: lru_inv_iff split: sum.splits)
      qed
    qed
  qed
qed

lemma cache_clear_inv:
  assumes "lru_inv s" shows "lru_inv (cache_clear s)"
proof -
  from assms obtain as where A: "lru_abs s as" by (auto simp: lru_inv_iff)
  then have "lru_abs (cache_clear s) []"
    by (simp add: lru_abs_def cache_clear_def ring_def next_of_def prev_of_def empty_link_def)
  then show ?thesis by (auto simp: lru_inv_iff)
qed

lemma lru_inv_misses [simp]: "lru_inv (s\<lparr>misses := n\<rparr>) = lru_inv s"
  by (simp add: lru_inv_iff)

lemma step_inv:
  assumes "lru_inv s"
  shows "lru_inv (snd (step_fixed cfg uf c s))"
    and "lru_inv (snd (step_memory cfg uf c s))"
    and "lru_inv (snd (step_disabled uf c s))"
  using assms
  by (cases c; simp add: wrapper_fixed_def wrapper_memory_def wrapper_disabled_def
      linked_wrapper_inv cache_clear_inv split: sum.splits)+

lemma run_inv:
  assumes step: "\<And>c s. P s \<Longrightarrow> P (snd (step c s))" and "P s"
  shows "P (snd (run step cs s))"
  using assms(2) by (induction cs arbitrary: s) (auto simp: split_beta step)

lemma inv_consistent:
  assumes "lru_inv s" shows "store_consistent s"
proof -
  from assms obtain as where A: "lru_abs s as" by (auto simp: lru_inv_iff)
  let ?f = "\<lambda>a. dict_key (lkey (heap s a))"
  have E: "lru_entries s = Some (map (entry_of (heap s)) as)" using A by (rule abs_entries)
  have len: "length (cache s) = length as" using A by (rule abs_length)
  have R: "ring (heap s) (root s) as" using A by (simp add: lru_abs_def)
  have "inj_on ?f (set as)"
  proof (rule inj_onI)
    fix a b assume "a \<in> set as" "b \<in> set as" "?f a = ?f b"
    then have "map_of (cache s) (?f a) = Some a" "map_of (cache s) (?f a) = Some b"
      by (simp_all add: abs_lookup[OF A])
    then show "a = b" by simp
  qed
  moreover have "distinct as" using R by (simp add: ring_def)
  ultimately have d: "distinct (map ?f as)" by (simp add: distinct_map)
  have "set (map fst (cache s)) = fst ` set (map (\<lambda>a. (?f a, a)) as)"
    using A by (simp add: lru_abs_def)
  also have "\<dots> = set (map ?f as)" by (simp add: image_image)
  finally have s: "set (map ?f as) = set (map fst (cache s))" by simp
  have e: "(next_of (heap s) (root s) = root s \<and> prev_of (heap s) (root s) = root s) \<longleftrightarrow> as = []"
    using R by (cases as) (auto simp: ring_def)
  have n: "as = [] \<longleftrightarrow> cache s = []"
    using len by (cases as; cases "cache s") simp_all
  show ?thesis
    using d s e len by (simp add: store_consistent_def E o_def entry_of_def n)
qed

text \<open>Claim C9 as stated fails for the unbounded wrapper (\<open>maxsize=None\<close>), which keeps
  results in the dictionary and never links them: after one call the dictionary has a
  key while the walk from \<open>root.next\<close> meets none and \<open>root\<close> is still linked to
  itself.\<close>

theorem unbounded_list_counterexample:
  "lru_cache unbounded_config = Unbounded
   \<and> (let s = snd (run (step_unbounded unbounded_config echo) [Call [PInt 1] [] (Inr 0)]
                     decorating_function)
      in map fst (cache s) = [Fast (PInt 1)] \<and> lru_entries s = Some []
         \<and> next_of (heap s) (root s) = root s \<and> prev_of (heap s) (root s) = root s
         \<and> \<not> store_consistent s)"
  by (simp add: eval_defs unbounded_config_def lru_cache_def lru_entries_def ring_links_def
      next_of_def prev_of_def store_consistent_def)

text \<open>Claim C9, amended.  Under the fixed-capacity and the memory policy (and, with an
  always empty store, under \<open>maxsize=0\<close>), after any sequence of calls and
  \<open>cache_clear\<close>s on a new decorated function, whatever the calls return or raise: the
  keys met by walking the list from \<open>root.next\<close> to \<open>root.prev\<close> are exactly the keys of
  the dictionary, in the same number, and \<open>root.next\<close> and \<open>root.prev\<close> are \<open>root\<close> if and
  only if the dictionary is empty.\<close>

theorem list_matches_dictionary:
  "store_consistent (snd (run (step_fixed cfg uf) cs decorating_function))
   \<and> store_consistent (snd (run (step_memory cfg uf) cs decorating_function))
   \<and> store_consistent (snd (run (step_disabled uf) cs (decorating_function :: nat lru_state)))"
  by (intro conjI inv_consistent run_inv[where P = lru_inv] step_inv lru_inv_initial)

section \<open>The recency order\<close>

lemma remdups_snoc: "remdups (xs @ [x]) = filter (\<lambda>y. y \<noteq> x) (remdups xs) @ [x]"
  by (induction xs) auto

lemma suffix_filter_snoc:
  assumes "suffix xs ys"
  shows "suffix (filter P xs @ [x]) (filter P ys @ [x])"
proof -
  from assms obtain zs where "ys = zs @ xs" by (auto simp: suffix_def)
  then show ?thesis by (simp add: suffix_def)
qed

lemma same_key_fun: "same_key k = (\<lambda>e. dict_key (fst e) = dict_key k)"
  by (auto simp: fun_eq_iff same_key_def)

lemma spec_access_keys:
  assumes d: "distinct (map (\<lambda>e. dict_key (fst e)) es)"
  shows "\<exists>ks. suffix ks (map (\<lambda>e. dict_key (fst e)) es)
          \<and> map (\<lambda>e. dict_key (fst e)) (spec_access b k v es)
              = filter (\<lambda>y. y \<noteq> dict_key k) ks @ [dict_key k]"
proof (cases "list_ex (same_key k) es")
  case True
  let ?ks = "map (\<lambda>e. dict_key (fst e)) es"
  have in_ks: "dict_key k \<in> set ?ks" using True by (force simp: list_ex_iff same_key_def image_iff)
  have "[y\<leftarrow>?ks. y = dict_key k] = [dict_key k]" using d in_ks by (rule filter_eq_single)
  then have "map (\<lambda>e. dict_key (fst e)) (spec_access b k v es)
      = filter (\<lambda>y. y \<noteq> dict_key k) ?ks @ [dict_key k]"
    using True by (simp add: spec_access_def filter_map o_def same_key_fun)
  then show ?thesis by (intro exI[of _ ?ks]) simp
next
  case False
  let ?ks = "map (\<lambda>e. dict_key (fst e)) es"
  have nin: "\<forall>e\<in>set es. dict_key (fst e) \<noteq> dict_key k"
    using False by (auto simp: list_ex_iff same_key_def)
  then have f: "filter (\<lambda>y. y \<noteq> dict_key k) ?ks = ?ks" by (simp add: filter_id_conv)
  have ft: "filter (\<lambda>y. y \<noteq> dict_key k) (tl ?ks) = tl ?ks"
    using nin by (cases es) (simp_all add: filter_id_conv)
  show ?thesis
  proof (cases b)
    case True
    have "suffix (tl ?ks) ?ks" by (cases es) (auto simp: suffix_def)
    then show ?thesis using False True ft
      by (intro exI[of _ "tl ?ks"]) (simp add: spec_access_def map_tl)
  next
    case b: False
    show ?thesis using False b f
      by (intro exI[of _ ?ks]) (simp add: spec_access_def)
  qed
qed

lemma spec_access_suffix:
  assumes d: "distinct (map (\<lambda>e. dict_key (fst e)) es)"
    and s: "suffix (map (\<lambda>e. dict_key (fst e)) es) (remdups hist)"
  shows "suffix (map (\<lambda>e. dict_key (fst e)) (spec_access b k v es))
           (remdups (hist @ [dict_key k]))"
proof -
  from spec_access_keys[OF d, of b k v] obtain ks
    where ks: "suffix ks (map (\<lambda>e. dict_key (fst e)) es)"
      and eq: "map (\<lambda>e. dict_key (fst e)) (spec_access b k v es)
                = filter (\<lambda>y. y \<noteq> dict_key k) ks @ [dict_key k]"
    by blast
  from ks s have "suffix ks (remdups hist)" by (rule suffix_order.trans)
  then show ?thesis unfolding eq remdups_snoc by (rule suffix_filter_snoc)
qed


lemma inv_entries:
  assumes "lru_inv s"
  obtains es where "lru_entries s = Some es" "distinct (map (\<lambda>e. dict_key (fst e)) es)"
  using inv_consistent[OF assms] by (auto simp: store_consistent_def split: option.splits)

lemma linked_step_refines:
  fixes s :: "nat lru_state" and uf :: user_function and is_full :: "nat \<Rightarrow> exn + bool"
  assumes I: "lru_inv s" and K: "make_key args kwds ty = Inr key" and U: "uf args kwds = Inr res"
    and F: "is_full (Suc (length (cache s))) = Inr b"
  defines "s' \<equiv> snd (linked_wrapper is_full ty uf args kwds s)"
  shows "lru_inv s'"
    and "lru_entries s' = map_option (spec_access (full s) key res) (lru_entries s)"
proof -
  have "lru_inv s' \<and> lru_entries s' = map_option (spec_access (full s) key res) (lru_entries s)"
  proof (cases "map_of (cache s) (dict_key key)")
    case None
    note c = linked_miss_call[where uf = uf and args = args and kwds = kwds and is_full = is_full,
        OF I K None U F, folded s'_def]
    show ?thesis using c(2) c(7) by simp
  next
    case (Some a)
    note c = linked_hit_call[where uf = uf and is_full = is_full, OF I K Some, folded s'_def]
    show ?thesis using c(2) c(10) by simp
  qed
  then show "lru_inv s'"
    and "lru_entries s' = map_option (spec_access (full s) key res) (lru_entries s)"
    by simp_all
qed

lemma run_snoc: "snd (run step (cs @ [c]) s) = snd (step c (snd (run step cs s)))"
  by (induction cs arbitrary: s) (simp_all add: split_beta)

lemma map_filter_snoc:
  "List.map_filter f (xs @ [x]) = List.map_filter f xs @ (case f x of None \<Rightarrow> [] | Some y \<Rightarrow> [y])"
  by (simp add: List.map_filter_def split: option.splits)

text \<open>The keys in the list are the most recently accessed ones, in the order of their last
  access.\<close>

lemma linked_history:
  fixes uf :: user_function and step :: "call \<Rightarrow> nat lru_state \<Rightarrow> (exn + pyval) \<times> nat lru_state"
  assumes step: "\<And>args kwds avail s. \<not> isl avail \<Longrightarrow>
      step (Call args kwds avail) s = linked_wrapper (is_full avail) ty uf args kwds s"
    and full: "\<And>avail n. \<not> isl avail \<Longrightarrow> \<not> isl (is_full avail n)"
    and ret: "list_all (returning ty uf) cs"
  shows "lru_inv (snd (run step cs decorating_function))
    \<and> (\<exists>ks. lru_keys (snd (run step cs decorating_function)) = Some ks
          \<and> suffix ks (remdups (List.map_filter (accessed ty) cs)))"
  using ret
proof (induction cs rule: rev_induct)
  case Nil
  have "lru_keys (decorating_function :: nat lru_state) = Some []"
    by (simp add: lru_keys_def lru_entries_def ring_links_def decorating_function_def
        next_of_def empty_link_def)
  then show ?case using lru_inv_initial by (simp add: List.map_filter_def)
next
  case (snoc c cs)
  let ?s = "snd (run step cs decorating_function)"
  from snoc have I: "lru_inv ?s" and "\<exists>ks. lru_keys ?s = Some ks
          \<and> suffix ks (remdups (List.map_filter (accessed ty) cs))"
    by simp_all
  then obtain ks where ks: "lru_keys ?s = Some ks"
    "suffix ks (remdups (List.map_filter (accessed ty) cs))" by blast
  from inv_entries[OF I] obtain es where es: "lru_entries ?s = Some es"
    "distinct (map (\<lambda>e. dict_key (fst e)) es)" by blast
  from ks(1) es(1) have kse: "ks = map (\<lambda>e. dict_key (fst e)) es" by (simp add: lru_keys_def)
  from snoc.prems have "returning ty uf c" by simp
  then obtain args kwds avail key res where c: "c = Call args kwds avail"
    and K: "make_key args kwds ty = Inr key" and U: "uf args kwds = Inr res" and a: "\<not> isl avail"
    by (cases c; cases "make_key (case c of Call a k v \<Rightarrow> a) (case c of Call a k v \<Rightarrow> k) ty";
        cases "uf (case c of Call a k v \<Rightarrow> a) (case c of Call a k v \<Rightarrow> k)") auto
  from full[OF a, of "Suc (length (cache ?s))"] obtain b where F: "is_full avail (Suc (length (cache ?s))) = Inr b"
    by (cases "is_full avail (Suc (length (cache ?s)))") auto
  let ?s' = "snd (run step (cs @ [c]) decorating_function)"
  have s': "?s' = snd (linked_wrapper (is_full avail) ty uf args kwds ?s)"
    by (simp add: run_snoc c step[OF a])
  note r = linked_step_refines[where uf = uf and args = args and kwds = kwds
      and is_full = "is_full avail", OF I K U F, folded s']
  have h: "List.map_filter (accessed ty) (cs @ [c])
      = List.map_filter (accessed ty) cs @ [dict_key key]"
    by (simp add: map_filter_snoc c K)
  have "lru_keys ?s' = Some (map (\<lambda>e. dict_key (fst e)) (spec_access (full ?s) key res es))"
    using r(2) es(1) by (simp add: lru_keys_def)
  moreover have "suffix (map (\<lambda>e. dict_key (fst e)) (spec_access (full ?s) key res es))
      (remdups (List.map_filter (accessed ty) (cs @ [c])))"
    unfolding h using es(2) ks(2)[unfolded kse] by (rule spec_access_suffix)
  ultimately show ?case using r(1) by blast
qed

lemma scenario_trace:
  "fst (run (step_fixed capacity2_config echo) scenario decorating_function)
     = map (\<lambda>i. Inr (PTuple [PInt i])) [1, 2, 1, 3, 2]"
  "map (\<lambda>n. cache_info capacity2_config
               (snd (run (step_fixed capacity2_config echo) (take n scenario) decorating_function)))
       [1, 2, 3, 4, 5]
     = [(0, 1, Some 2, 1), (0, 2, Some 2, 2), (1, 2, Some 2, 2), (1, 3, Some 2, 2), (1, 4, Some 2, 2)]"
  "map (\<lambda>n. lru_keys
               (snd (run (step_fixed capacity2_config echo) (take n scenario) decorating_function)))
       [2, 3, 4, 5]
     = [Some [Fast (PInt 1), Fast (PInt 2)], Some [Fast (PInt 2), Fast (PInt 1)],
        Some [Fast (PInt 1), Fast (PInt 3)], Some [Fast (PInt 3), Fast (PInt 2)]]"
  by (simp_all add: eval_defs scenario_def capacity2_config_def lru_keys_def lru_entries_def
      ring_links_def next_of_def entry_of_def)

text \<open>Claim C4.  Under each of the two bounded policies, a call that returns on a
  consistent state changes the list of entries as the specification's recency order
  says: a hit moves the entry to the most-recent end, a miss on a full cache drops the
  least recently used entry and appends the new one, any other miss appends it.  Hence
  after any sequence of returning calls on a new decorated function, the keys in the
  list are the most recently accessed keys, in the order of their last access: no key
  accessed after a key that is still present has been evicted.  In the scenario with
  capacity 2 and calls \<open>f(1), f(2), f(1), f(3), f(2)\<close>, the counters \<open>(hits, misses)\<close>
  and sizes go \<open>(0,1)\<close> size 1, \<open>(0,2)\<close> size 2, \<open>(1,2)\<close> with order \<open>[2,1]\<close>, \<open>(1,3)\<close>
  with 2 evicted and the store holding 1 and 3 at size 2, then \<open>(1,4)\<close>: a miss for 2.\<close>

theorem recency_order:
  assumes "lru_inv s" and "make_key args kwds (typed cfg) = Inr key" and "uf args kwds = Inr res"
  shows "(\<exists>es. lru_entries s = Some es
          \<and> (maxsize cfg \<noteq> None \<longrightarrow>
               lru_entries (snd (wrapper_fixed cfg uf args kwds s))
                 = Some (spec_access (full s) key res es))
          \<and> lru_entries (snd (wrapper_memory cfg uf args kwds (Inr avail) s))
                 = Some (spec_access (full s) key res es))
     \<and> (maxsize cfg \<noteq> None \<and> list_all (returning (typed cfg) uf) cs \<longrightarrow>
          (\<exists>ks. lru_keys (snd (run (step_fixed cfg uf) cs decorating_function)) = Some ks
                \<and> suffix ks (remdups (List.map_filter (accessed (typed cfg)) cs))))
     \<and> (list_all (returning (typed cfg) uf) cs \<longrightarrow>
          (\<exists>ks. lru_keys (snd (run (step_memory cfg uf) cs decorating_function)) = Some ks
                \<and> suffix ks (remdups (List.map_filter (accessed (typed cfg)) cs))))
     \<and> fst (run (step_fixed capacity2_config echo) scenario decorating_function)
          = map (\<lambda>i. Inr (PTuple [PInt i])) [1, 2, 1, 3, 2]
     \<and> map (\<lambda>n. cache_info capacity2_config
               (snd (run (step_fixed capacity2_config echo) (take n scenario) decorating_function)))
            [1, 2, 3, 4, 5]
          = [(0, 1, Some 2, 1), (0, 2, Some 2, 2), (1, 2, Some 2, 2), (1, 3, Some 2, 2),
             (1, 4, Some 2, 2)]
     \<and> map (\<lambda>n. lru_keys
               (snd (run (step_fixed capacity2_config echo) (take n scenario) decorating_function)))
            [2, 3, 4, 5]
          = [Some [Fast (PInt 1), Fast (PInt 2)], Some [Fast (PInt 2), Fast (PInt 1)],
             Some [Fast (PInt 1), Fast (PInt 3)], Some [Fast (PInt 3), Fast (PInt 2)]]"
proof (intro conjI impI)
  from inv_entries[OF assms(1)] obtain es where es: "lru_entries s = Some es" by blast
  have m: "lru_entries (snd (wrapper_memory cfg uf args kwds (Inr avail) s))
      = Some (spec_access (full s) key res es)"
    unfolding wrapper_memory_def
    using linked_step_refines(2)[where uf = uf and args = args and kwds = kwds
        and is_full = "memory_full cfg (Inr avail)", OF assms] es
    by (simp add: memory_full_def)
  have f: "lru_entries (snd (wrapper_fixed cfg uf args kwds s))
      = Some (spec_access (full s) key res es)" if "maxsize cfg \<noteq> None"
    unfolding wrapper_fixed_def
    using linked_step_refines(2)[where uf = uf and args = args and kwds = kwds
        and is_full = "fixed_full cfg", OF assms] es that
    by (auto simp: fixed_full_def)
  show "\<exists>es. lru_entries s = Some es
          \<and> (maxsize cfg \<noteq> None \<longrightarrow>
               lru_entries (snd (wrapper_fixed cfg uf args kwds s))
                 = Some (spec_access (full s) key res es))
          \<and> lru_entries (snd (wrapper_memory cfg uf args kwds (Inr avail) s))
                 = Some (spec_access (full s) key res es)"
    using es m f by blast
  show "\<exists>ks. lru_keys (snd (run (step_fixed cfg uf) cs decorating_function)) = Some ks
                \<and> suffix ks (remdups (List.map_filter (accessed (typed cfg)) cs))"
    if "maxsize cfg \<noteq> None \<and> list_all (returning (typed cfg) uf) cs"
  proof -
    from that obtain m where m: "maxsize cfg = Some m" by auto
    have st: "step_fixed cfg uf (Call args kwds avail) s
        = linked_wrapper ((\<lambda>avail. fixed_full cfg) avail) (typed cfg) uf args kwds s"
      for args kwds avail s by (simp add: wrapper_fixed_def)
    have ff: "\<not> isl ((\<lambda>avail. fixed_full cfg) avail n)" for avail :: "exn + int" and n
      by (simp add: fixed_full_def m)
    from linked_history[where step = "step_fixed cfg uf" and uf = uf and ty = "typed cfg"
        and is_full = "\<lambda>avail. fixed_full cfg" and cs = cs, OF st ff] that
    show ?thesis by simp
  qed
  show "\<exists>ks. lru_keys (snd (run (step_memory cfg uf) cs decorating_function)) = Some ks
                \<and> suffix ks (remdups (List.map_filter (accessed (typed cfg)) cs))"
    if "list_all (returning (typed cfg) uf) cs"
  proof -
    have st: "step_memory cfg uf (Call args kwds avail) s
        = linked_wrapper (memory_full cfg avail) (typed cfg) uf args kwds s"
      for args kwds avail s by (simp add: wrapper_memory_def)
    have mf: "\<not> isl avail \<Longrightarrow> \<not> isl (memory_full cfg avail n)" for avail n
      by (cases avail) (simp_all add: memory_full_def)
    from linked_history[where step = "step_memory cfg uf" and uf = uf and ty = "typed cfg"
        and is_full = "memory_full cfg" and cs = cs, OF st mf] that
    show ?thesis by simp
  qed
qed (rule scenario_trace)+

theorem recency_order_witness:
  "lru_inv decorating_function
   \<and> make_key [PInt 1] [] (typed capacity2_config) = Inr (Fast (PInt 1))
   \<and> echo [PInt 1] [] = Inr (PTuple [PInt 1])
   \<and> list_all (returning (typed capacity2_config) echo) scenario
   \<and> lru_entries (snd (wrapper_fixed capacity2_config echo [PInt 1] [] decorating_function))
       = Some [(Fast (PInt 1), PTuple [PInt 1])]
   \<and> (\<exists>ks. lru_keys (snd (run (step_fixed capacity2_config echo) scenario decorating_function))
              = Some ks
            \<and> suffix ks (remdups (List.map_filter (accessed (typed capacity2_config)) scenario)))"
proof -
  have i: "lru_inv decorating_function" by (rule lru_inv_initial)
  have k: "make_key [PInt 1] [] (typed capacity2_config) = Inr (Fast (PInt 1))"
    by (simp add: make_key_def capacity2_config_def fasttypes_def)
  have u: "echo [PInt 1] [] = Inr (PTuple [PInt 1])" by (simp add: echo_def)
  have r: "list_all (returning (typed capacity2_config) echo) scenario"
    by (simp add: scenario_def capacity2_config_def make_key_def fasttypes_def echo_def)
  have c: "maxsize capacity2_config \<noteq> None" by (simp add: capacity2_config_def)
  have e: "lru_entries (decorating_function :: nat lru_state) = Some []"
    by (simp add: lru_entries_def ring_links_def decorating_function_def next_of_def empty_link_def)
  have n: "\<not> full (decorating_function :: nat lru_state)" by (simp add: decorating_function_def)
  from recency_order[where uf = echo and args = "[PInt 1]" and kwds = "[]"
      and cfg = capacity2_config and cs = scenario and avail = 0, OF i k u] i k u r c e n
  show ?thesis by (simp add: spec_access_def)
qed

section \<open>Repeated calls\<close>

lemma linked_repeat_hits:
  fixes uf :: user_function and step :: "call \<Rightarrow> nat lru_state \<Rightarrow> (exn + pyval) \<times> nat lru_state"
  assumes step: "\<And>avail s. step (Call args kwds avail) s
      = linked_wrapper (is_full avail) ty uf args kwds s"
    and K: "make_key args kwds ty = Inr key"
  shows "lru_inv s \<Longrightarrow> map_of (cache s) (dict_key key) = Some a \<Longrightarrow> lresult (heap s a) = res \<Longrightarrow>
    fst (run step (map (Call args kwds) avs) s) = replicate (length avs) (Inr res)
    \<and> hits (snd (run step (map (Call args kwds) avs) s)) = hits s + length avs
    \<and> misses (snd (run step (map (Call args kwds) avs) s)) = misses s"
proof (induction avs arbitrary: s)
  case Nil
  then show ?case by simp
next
  case (Cons av avs)
  let ?s1 = "snd (linked_wrapper (is_full av) ty uf args kwds s)"
  note h = linked_hit_call[where uf = uf and is_full = "is_full av", OF Cons.prems(1) K Cons.prems(2)]
  have "map_of (cache ?s1) (dict_key key) = Some a" "lresult (heap ?s1 a) = res"
    using h(5) h(6)[of a] Cons.prems by simp_all
  from Cons.IH[OF h(2) this] h(1) h(3) h(4) Cons.prems(3)
  show ?case by (simp add: split_beta step)
qed

lemma linked_first_then_hits:
  fixes uf :: user_function and step :: "call \<Rightarrow> nat lru_state \<Rightarrow> (exn + pyval) \<times> nat lru_state"
  assumes step: "\<And>avail s. step (Call args kwds avail) s
      = linked_wrapper (is_full avail) ty uf args kwds s"
    and K: "make_key args kwds ty = Inr key" and U: "uf args kwds = Inr res"
    and I: "lru_inv s" and m: "map_of (cache s) (dict_key key) = None"
    and F: "is_full av (Suc (length (cache s))) = Inr b"
  shows "fst (run step (map (Call args kwds) (av # avs)) s) = replicate (Suc (length avs)) (Inr res)
    \<and> misses (snd (run step (map (Call args kwds) (av # avs)) s)) = misses s + 1
    \<and> hits (snd (run step (map (Call args kwds) (av # avs)) s)) = hits s + length avs"
proof -
  let ?s1 = "snd (linked_wrapper (is_full av) ty uf args kwds s)"
  note c = linked_miss_call[where uf = uf and args = args and kwds = kwds and is_full = "is_full av",
      OF I K m U F]
  from c(5) obtain a where a: "map_of (cache ?s1) (dict_key key) = Some a" "lresult (heap ?s1 a) = res"
    by blast
  from linked_repeat_hits[where step = step and uf = uf and is_full = is_full, OF step K c(2) a, of avs]
    c(1) c(3) c(4)
  show ?thesis by (simp add: split_beta step)
qed

lemma unbounded_repeat_hits:
  assumes K: "make_key args kwds (typed cfg) = Inr key"
  shows "map_of (cache u) (dict_key key) = Some res \<Longrightarrow>
    fst (run (step_unbounded cfg uf) (map (Call args kwds) avs) u) = replicate (length avs) (Inr res)
    \<and> hits (snd (run (step_unbounded cfg uf) (map (Call args kwds) avs) u)) = hits u + length avs
    \<and> misses (snd (run (step_unbounded cfg uf) (map (Call args kwds) avs) u)) = misses u"
proof (induction avs arbitrary: u)
  case Nil
  then show ?case by simp
next
  case (Cons av avs)
  have w: "wrapper_unbounded cfg uf args kwds u = (Inr res, u\<lparr>hits := hits u + 1\<rparr>)"
    using K Cons.prems by (simp add: wrapper_unbounded_def)
  have "map_of (cache (u\<lparr>hits := hits u + 1\<rparr>)) (dict_key key) = Some res"
    using Cons.prems by simp
  from Cons.IH[OF this] show ?case by (simp add: split_beta w)
qed

text \<open>Claim C1.  In each of the three caching configurations, take a state in which the
  key of some arguments is not stored (for the two recency-tracking wrappers, a consistent
  state) and a user function that returns \<open>res\<close> on these arguments.  In any sequence of
  calls with these arguments, the first call is the only one that increments \<open>misses\<close>,
  every later call increments \<open>hits\<close>, and every call returns \<open>res\<close>, the value stored by
  the first.  (Under the memory policy the probe is asked by the first call only, and is
  taken to answer.)\<close>

theorem repeated_calls_hit:
  assumes K: "make_key args kwds (typed cfg) = Inr key" and U: "uf args kwds = Inr res"
  shows "(lru_cache cfg = FixedCapacity \<and> lru_inv s \<and> map_of (cache s) (dict_key key) = None \<longrightarrow>
           fst (run (step_fixed cfg uf) (map (Call args kwds) (av # avs)) s)
             = replicate (Suc (length avs)) (Inr res)
           \<and> misses (snd (run (step_fixed cfg uf) (map (Call args kwds) (av # avs)) s))
               = misses s + 1
           \<and> hits (snd (run (step_fixed cfg uf) (map (Call args kwds) (av # avs)) s))
               = hits s + length avs)
     \<and> (lru_cache cfg = MemoryPressure \<and> lru_inv s \<and> map_of (cache s) (dict_key key) = None \<longrightarrow>
           fst (run (step_memory cfg uf) (map (Call args kwds) (Inr bytes # avs)) s)
             = replicate (Suc (length avs)) (Inr res)
           \<and> misses (snd (run (step_memory cfg uf) (map (Call args kwds) (Inr bytes # avs)) s))
               = misses s + 1
           \<and> hits (snd (run (step_memory cfg uf) (map (Call args kwds) (Inr bytes # avs)) s))
               = hits s + length avs)
     \<and> (lru_cache cfg = Unbounded \<and> map_of (cache u) (dict_key key) = None \<longrightarrow>
           fst (run (step_unbounded cfg uf) (map (Call args kwds) (av # avs)) u)
             = replicate (Suc (length avs)) (Inr res)
           \<and> misses (snd (run (step_unbounded cfg uf) (map (Call args kwds) (av # avs)) u))
               = misses u + 1
           \<and> hits (snd (run (step_unbounded cfg uf) (map (Call args kwds) (av # avs)) u))
               = hits u + length avs)"
proof (intro conjI impI)
  {
    assume a: "lru_cache cfg = FixedCapacity \<and> lru_inv s \<and> map_of (cache s) (dict_key key) = None"
    then obtain m where m: "maxsize cfg = Some m"
      by (cases "maxsize cfg") (auto simp: lru_cache_def split: if_splits)
    have st: "step_fixed cfg uf (Call args kwds avail) s
        = linked_wrapper ((\<lambda>avail. fixed_full cfg) avail) (typed cfg) uf args kwds s"
      for avail s by (simp add: wrapper_fixed_def)
    have F: "(\<lambda>avail. fixed_full cfg) av (Suc (length (cache s))) = Inr (m \<le> int (Suc (length (cache s))))"
      by (simp add: fixed_full_def m)
    note r = linked_first_then_hits[where step = "step_fixed cfg uf" and uf = uf
        and is_full = "\<lambda>avail. fixed_full cfg" and avs = avs,
        OF st K U a[THEN conjunct2, THEN conjunct1] a[THEN conjunct2, THEN conjunct2] F]
    from r
    show "fst (run (step_fixed cfg uf) (map (Call args kwds) (av # avs)) s)
             = replicate (Suc (length avs)) (Inr res)"
      and "misses (snd (run (step_fixed cfg uf) (map (Call args kwds) (av # avs)) s))
               = misses s + 1"
      and "hits (snd (run (step_fixed cfg uf) (map (Call args kwds) (av # avs)) s))
               = hits s + length avs"
      by simp_all
  }
  {
    assume a: "lru_cache cfg = MemoryPressure \<and> lru_inv s \<and> map_of (cache s) (dict_key key) = None"
    have st: "step_memory cfg uf (Call args kwds avail) s
        = linked_wrapper (memory_full cfg avail) (typed cfg) uf args kwds s"
      for avail s by (simp add: wrapper_memory_def)
    have F: "memory_full cfg (Inr bytes) (Suc (length (cache s))) = Inr (bytes < use_memory_up_to cfg)"
      by (simp add: memory_full_def)
    note r = linked_first_then_hits[where step = "step_memory cfg uf" and uf = uf
        and is_full = "memory_full cfg" and avs = avs,
        OF st K U a[THEN conjunct2, THEN conjunct1] a[THEN conjunct2, THEN conjunct2] F]
    from r
    show "fst (run (step_memory cfg uf) (map (Call args kwds) (Inr bytes # avs)) s)
             = replicate (Suc (length avs)) (Inr res)"
      and "misses (snd (run (step_memory cfg uf) (map (Call args kwds) (Inr bytes # avs)) s))
               = misses s + 1"
      and "hits (snd (run (step_memory cfg uf) (map (Call args kwds) (Inr bytes # avs)) s))
               = hits s + length avs"
      by simp_all
  }
  {
    assume a: "lru_cache cfg = Unbounded \<and> map_of (cache u) (dict_key key) = None"
    let ?u1 = "u\<lparr>cache := AList.update (dict_key key) res (cache u), misses := misses u + 1\<rparr>"
    have w: "wrapper_unbounded cfg uf args kwds u = (Inr res, ?u1)"
      using K U a by (simp add: wrapper_unbounded_def)
    have "map_of (cache ?u1) (dict_key key) = Some res" by (simp add: update_conv')
    from unbounded_repeat_hits[OF K this, of uf avs]
    show "fst (run (step_unbounded cfg uf) (map (Call args kwds) (av # avs)) u)
             = replicate (Suc (length avs)) (Inr res)"
      and "misses (snd (run (step_unbounded cfg uf) (map (Call args kwds) (av # avs)) u))
               = misses u + 1"
      and "hits (snd (run (step_unbounded cfg uf) (map (Call args kwds) (av # avs)) u))
               = hits u + length avs"
      by (simp_all add: split_beta w)
  }
qed

theorem repeated_calls_hit_witness:
  "make_key [PInt 7] [] (typed default_config) = Inr (Fast (PInt 7))
   \<and> echo [PInt 7] [] = Inr (PTuple [PInt 7])
   \<and> lru_cache default_config = FixedCapacity \<and> lru_cache memory_config = MemoryPressure
   \<and> lru_cache unbounded_config = Unbounded
   \<and> lru_inv decorating_function
   \<and> map_of (cache (decorating_function :: nat lru_state)) (dict_key (Fast (PInt 7))) = None
   \<and> fst (run (step_fixed default_config echo)
            (map (Call [PInt 7] []) [Inr 0, Inr 0, Inr 0]) decorating_function)
       = replicate 3 (Inr (PTuple [PInt 7]))
   \<and> cache_info memory_config (snd (run (step_memory memory_config echo)
            (map (Call [PInt 7] []) [Inr 0, Inr 0, Inr 0]) decorating_function))
       = (2, 1, None, 1)
   \<and> cache_info unbounded_config (snd (run (step_unbounded unbounded_config echo)
            (map (Call [PInt 7] []) [Inr 0, Inr 0, Inr 0]) decorating_function))
       = (2, 1, None, 1)"
proof -
  have k: "make_key [PInt 7] [] (typed default_config) = Inr (Fast (PInt 7))"
    "make_key [PInt 7] [] (typed memory_config) = Inr (Fast (PInt 7))"
    "make_key [PInt 7] [] (typed unbounded_config) = Inr (Fast (PInt 7))"
    by (simp_all add: make_key_def default_config_def memory_config_def unbounded_config_def
        fasttypes_def)
  have u: "echo [PInt 7] [] = Inr (PTuple [PInt 7])" by (simp add: echo_def)
  have c: "lru_cache default_config = FixedCapacity" "lru_cache memory_config = MemoryPressure"
    "lru_cache unbounded_config = Unbounded"
    by (simp_all add: lru_cache_def default_config_def memory_config_def unbounded_config_def)
  have i: "lru_inv decorating_function" by (rule lru_inv_initial)
  have m: "map_of (cache (decorating_function :: nat lru_state)) (dict_key (Fast (PInt 7))) = None"
    "map_of (cache (decorating_function :: pyval lru_state)) (dict_key (Fast (PInt 7))) = None"
    by (simp_all add: decorating_function_def)
  have l: "cache (snd (run (step_memory memory_config echo)
            (map (Call [PInt 7] []) [Inr 0, Inr 0, Inr 0]) decorating_function))
        = [(Fast (PInt 7), 1)]"
    "cache (snd (run (step_unbounded unbounded_config echo)
            (map (Call [PInt 7] []) [Inr 0, Inr 0, Inr 0]) decorating_function))
        = [(Fast (PInt 7), PTuple [PInt 7])]"
    by (simp_all add: eval_defs memory_config_def unbounded_config_def)
  from repeated_calls_hit[where uf = echo and args = "[PInt 7]" and kwds = "[]"
        and cfg = default_config and s = decorating_function and u = decorating_function
        and av = "Inr 0" and avs = "[Inr 0, Inr 0]" and bytes = 0, OF k(1) u]
    repeated_calls_hit[where uf = echo and args = "[PInt 7]" and kwds = "[]"
        and cfg = memory_config and s = decorating_function and u = decorating_function
        and av = "Inr 0" and avs = "[Inr 0, Inr 0]" and bytes = 0, OF k(2) u]
    repeated_calls_hit[where uf = echo and args = "[PInt 7]" and kwds = "[]"
        and cfg = unbounded_config and s = decorating_function and u = decorating_function
        and av = "Inr 0" and avs = "[Inr 0, Inr 0]" and bytes = 0, OF k(3) u]
    k u c i m l
  show ?thesis
    by (simp add: cache_info_def decorating_function_def memory_config_def unbounded_config_def
        numeral_3_eq_3)
qed

section \<open>Filling a cache of fixed capacity\<close>







end
